theory Spec2Isabelle
  imports Complex_Main "HOL-Library.Multiset"
begin

section \<open>The quadtree of quadtree.py\<close>

text \<open>
  A shallow embedding of \<^verbatim>\<open>QuadtreeNode\<close> and \<^verbatim>\<open>Quadtree\<close>.
  Coordinates are Python floats in the source and exact reals here: rounding, overflow and
  NaN are not modelled. Object mutation is explicit state passing: every method that writes
  a field returns the new node. Exceptions are values of \<open>error + 'a\<close>.
\<close>

subsection \<open>Data model\<close>

text \<open>A stored tuple \<^verbatim>\<open>(x, y, index, full_data)\<close>.\<close>

type_synonym point = "real \<times> real \<times> int \<times> real list option"

datatype error = AttributeError | RecursionError | ValueError | IndexError

text \<open>
  The fields of \<^verbatim>\<open>QuadtreeNode\<close>, in the order \<^verbatim>\<open>__init__\<close> sets them. The four
  children are \<^verbatim>\<open>None\<close> until \<^verbatim>\<open>subdivide\<close> creates them.
\<close>

datatype QuadtreeNode = QuadtreeNode
  (x_min: real) (x_max: real) (y_min: real) (y_max: real)
  (capacity: int) (depth: int) (max_depth: int)
  (points: "point list") (is_divided: bool)
  (nw: "QuadtreeNode option") (ne: "QuadtreeNode option")
  (sw: "QuadtreeNode option") (se: "QuadtreeNode option")

text \<open>\<^verbatim>\<open>QuadtreeNode.__init__\<close>: an empty, undivided node without children.\<close>

definition QuadtreeNode_init ::
  "real \<Rightarrow> real \<Rightarrow> real \<Rightarrow> real \<Rightarrow> int \<Rightarrow> int \<Rightarrow> int \<Rightarrow> QuadtreeNode" where
  "QuadtreeNode_init xlo xhi ylo yhi cap d md =
     QuadtreeNode xlo xhi ylo yhi cap d md [] False None None None None"

text \<open>Field assignments \<^verbatim>\<open>self.f = v\<close>.\<close>

definition set_points :: "point list \<Rightarrow> QuadtreeNode \<Rightarrow> QuadtreeNode" where
  "set_points ps n = QuadtreeNode (x_min n) (x_max n) (y_min n) (y_max n)
     (capacity n) (depth n) (max_depth n) ps (is_divided n) (nw n) (ne n) (sw n) (se n)"

definition set_nw :: "QuadtreeNode option \<Rightarrow> QuadtreeNode \<Rightarrow> QuadtreeNode" where
  "set_nw c n = QuadtreeNode (x_min n) (x_max n) (y_min n) (y_max n)
     (capacity n) (depth n) (max_depth n) (points n) (is_divided n) c (ne n) (sw n) (se n)"

definition set_ne :: "QuadtreeNode option \<Rightarrow> QuadtreeNode \<Rightarrow> QuadtreeNode" where
  "set_ne c n = QuadtreeNode (x_min n) (x_max n) (y_min n) (y_max n)
     (capacity n) (depth n) (max_depth n) (points n) (is_divided n) (nw n) c (sw n) (se n)"

definition set_sw :: "QuadtreeNode option \<Rightarrow> QuadtreeNode \<Rightarrow> QuadtreeNode" where
  "set_sw c n = QuadtreeNode (x_min n) (x_max n) (y_min n) (y_max n)
     (capacity n) (depth n) (max_depth n) (points n) (is_divided n) (nw n) (ne n) c (se n)"

definition set_se :: "QuadtreeNode option \<Rightarrow> QuadtreeNode \<Rightarrow> QuadtreeNode" where
  "set_se c n = QuadtreeNode (x_min n) (x_max n) (y_min n) (y_max n)
     (capacity n) (depth n) (max_depth n) (points n) (is_divided n) (nw n) (ne n) (sw n) c"

subsection \<open>Geometry\<close>

definition contains :: "QuadtreeNode \<Rightarrow> real \<Rightarrow> real \<Rightarrow> bool" where
  "contains n x y \<longleftrightarrow> (x_min n \<le> x \<and> x \<le> x_max n) \<and> (y_min n \<le> y \<and> y \<le> y_max n)"

definition intersects :: "QuadtreeNode \<Rightarrow> real \<Rightarrow> real \<Rightarrow> real \<Rightarrow> real \<Rightarrow> bool" where
  "intersects n qx_min qx_max qy_min qy_max \<longleftrightarrow>
     \<not> (qx_max < x_min n \<or> qx_min > x_max n \<or> qy_max < y_min n \<or> qy_min > y_max n)"

subsection \<open>Insertion\<close>

text \<open>
  \<^verbatim>\<open>insert\<close>, \<^verbatim>\<open>subdivide\<close> and \<^verbatim>\<open>_insert_to_child\<close> call each other. The
  recursive call \<^verbatim>\<open>child.insert\<close> is the parameter \<open>ins\<close> of the two helpers, and
  \<open>insert_qt\<close> ties the knot. A method that mutates \<^verbatim>\<open>self\<close> returns the new node.
\<close>

definition insert_to_child ::
  "(QuadtreeNode \<Rightarrow> point \<Rightarrow> error + bool \<times> QuadtreeNode) \<Rightarrow>
   QuadtreeNode \<Rightarrow> point \<Rightarrow> error + bool \<times> QuadtreeNode" where
  "insert_to_child ins n p =
     (case p of (x, y, idx, full_data) \<Rightarrow>
     (case nw n of None \<Rightarrow> Inl AttributeError | Some c1 \<Rightarrow>
      if contains c1 x y then
        (case ins c1 p of Inl e \<Rightarrow> Inl e | Inr (b, c') \<Rightarrow> Inr (b, set_nw (Some c') n))
      else
     (case ne n of None \<Rightarrow> Inl AttributeError | Some c2 \<Rightarrow>
      if contains c2 x y then
        (case ins c2 p of Inl e \<Rightarrow> Inl e | Inr (b, c') \<Rightarrow> Inr (b, set_ne (Some c') n))
      else
     (case sw n of None \<Rightarrow> Inl AttributeError | Some c3 \<Rightarrow>
      if contains c3 x y then
        (case ins c3 p of Inl e \<Rightarrow> Inl e | Inr (b, c') \<Rightarrow> Inr (b, set_sw (Some c') n))
      else
     (case se n of None \<Rightarrow> Inl AttributeError | Some c4 \<Rightarrow>
      if contains c4 x y then
        (case ins c4 p of Inl e \<Rightarrow> Inl e | Inr (b, c') \<Rightarrow> Inr (b, set_se (Some c') n))
      else Inr (False, n))))))"

text \<open>The loop \<^verbatim>\<open>for point in self.points: self._insert_to_child(point)\<close>; the
  result of each call is dropped.\<close>

fun redistribute ::
  "(QuadtreeNode \<Rightarrow> point \<Rightarrow> error + bool \<times> QuadtreeNode) \<Rightarrow>
   QuadtreeNode \<Rightarrow> point list \<Rightarrow> error + QuadtreeNode" where
  "redistribute ins n [] = Inr n"
| "redistribute ins n (p # ps) =
     (case insert_to_child ins n p of
        Inl e \<Rightarrow> Inl e
      | Inr (b, n') \<Rightarrow> redistribute ins n' ps)"

text \<open>The test \<^verbatim>\<open>all(abs(p[0] - first_x) < 1e-10 and abs(p[1] - first_y) < 1e-10 for p in
  self.points)\<close>, reached only with at least two points.\<close>

definition all_same :: "point list \<Rightarrow> bool" where
  "all_same ps =
     (case ps of [] \<Rightarrow> True
      | p0 # _ \<Rightarrow>
          list_all (\<lambda>p. \<bar>fst p - fst p0\<bar> < 1 / 10 ^ 10 \<and>
                        \<bar>fst (snd p) - fst (snd p0)\<bar> < 1 / 10 ^ 10) ps)"

definition subdivide ::
  "(QuadtreeNode \<Rightarrow> point \<Rightarrow> error + bool \<times> QuadtreeNode) \<Rightarrow>
   QuadtreeNode \<Rightarrow> error + QuadtreeNode" where
  "subdivide ins n =
     (if depth n \<ge> max_depth n then Inr n
      else if length (points n) > 1 \<and> all_same (points n) then Inr n
      else
        let x_mid = (x_min n + x_max n) / 2;
            y_mid = (y_min n + y_max n) / 2;
            n1 = QuadtreeNode (x_min n) (x_max n) (y_min n) (y_max n)
                   (capacity n) (depth n) (max_depth n) (points n) True
                   (Some (QuadtreeNode_init (x_min n) x_mid y_mid (y_max n)
                            (capacity n) (depth n + 1) (max_depth n)))
                   (Some (QuadtreeNode_init x_mid (x_max n) y_mid (y_max n)
                            (capacity n) (depth n + 1) (max_depth n)))
                   (Some (QuadtreeNode_init (x_min n) x_mid (y_min n) y_mid
                            (capacity n) (depth n + 1) (max_depth n)))
                   (Some (QuadtreeNode_init x_mid (x_max n) (y_min n) y_mid
                            (capacity n) (depth n + 1) (max_depth n)))
        in case redistribute ins n1 (points n1) of
             Inl e \<Rightarrow> Inl e
           | Inr n2 \<Rightarrow> Inr (set_points [] n2))"

definition insert_body ::
  "(QuadtreeNode \<Rightarrow> point \<Rightarrow> error + bool \<times> QuadtreeNode) \<Rightarrow>
   QuadtreeNode \<Rightarrow> point \<Rightarrow> error + bool \<times> QuadtreeNode" where
  "insert_body ins n p =
     (case p of (x, y, index, full_data) \<Rightarrow>
      if \<not> contains n x y then Inr (False, n)
      else if \<not> is_divided n then
        if int (length (points n)) < capacity n then
          Inr (True, set_points (points n @ [p]) n)
        else if depth n \<ge> max_depth n then
          Inr (True, set_points (points n @ [p]) n)
        else
          case subdivide ins n of
            Inl e \<Rightarrow> Inl e
          | Inr n1 \<Rightarrow>
              if \<not> is_divided n1 then Inr (True, set_points (points n1 @ [p]) n1)
              else insert_to_child ins n1 p
      else insert_to_child ins n p)"

text \<open>
  \<^verbatim>\<open>QuadtreeNode.insert\<close>. The first argument bounds the nesting of \<^verbatim>\<open>insert\<close>
  calls, as the interpreter's recursion limit does: a call that would nest deeper is
  \<open>Inl RecursionError\<close>. The result is the returned flag and the node afterwards.
\<close>

fun insert_qt :: "nat \<Rightarrow> QuadtreeNode \<Rightarrow> point \<Rightarrow> error + bool \<times> QuadtreeNode" where
  "insert_qt 0 n p = Inl RecursionError"
| "insert_qt (Suc k) n p = insert_body (insert_qt k) n p"

subsection \<open>Range query\<close>

text \<open>\<^verbatim>\<open>QuadtreeNode.query_range\<close>: the node's own matches first, then the four
  children in the order nw, ne, sw, se.\<close>

fun query_range :: "QuadtreeNode \<Rightarrow> real \<Rightarrow> real \<Rightarrow> real \<Rightarrow> real \<Rightarrow> error + int list" where
  "query_range (QuadtreeNode xlo xhi ylo yhi cap dp md ps dv c1 c2 c3 c4)
       qx_min qx_max qy_min qy_max =
     (if \<not> intersects (QuadtreeNode xlo xhi ylo yhi cap dp md ps dv c1 c2 c3 c4)
              qx_min qx_max qy_min qy_max
      then Inr []
      else
        let results =
              map (\<lambda>p. fst (snd (snd p)))
                (filter (\<lambda>p. (qx_min \<le> fst p \<and> fst p \<le> qx_max) \<and>
                             (qy_min \<le> fst (snd p) \<and> fst (snd p) \<le> qy_max)) ps)
        in if dv then
             (case c1 of None \<Rightarrow> Inl AttributeError | Some a1 \<Rightarrow>
             (case query_range a1 qx_min qx_max qy_min qy_max of Inl e \<Rightarrow> Inl e | Inr r1 \<Rightarrow>
             (case c2 of None \<Rightarrow> Inl AttributeError | Some a2 \<Rightarrow>
             (case query_range a2 qx_min qx_max qy_min qy_max of Inl e \<Rightarrow> Inl e | Inr r2 \<Rightarrow>
             (case c3 of None \<Rightarrow> Inl AttributeError | Some a3 \<Rightarrow>
             (case query_range a3 qx_min qx_max qy_min qy_max of Inl e \<Rightarrow> Inl e | Inr r3 \<Rightarrow>
             (case c4 of None \<Rightarrow> Inl AttributeError | Some a4 \<Rightarrow>
             (case query_range a4 qx_min qx_max qy_min qy_max of Inl e \<Rightarrow> Inl e | Inr r4 \<Rightarrow>
                Inr (results @ r1 @ r2 @ r3 @ r4)))))))))
           else Inr results)"

subsection \<open>The index\<close>

text \<open>\<^verbatim>\<open>Quadtree._get_depth_recursive\<close>: a missing or undivided node counts 1.\<close>

fun get_depth_recursive :: "QuadtreeNode option \<Rightarrow> int" where
  "get_depth_recursive None = 1"
| "get_depth_recursive (Some (QuadtreeNode xlo xhi ylo yhi cap dp md ps dv c1 c2 c3 c4)) =
     (if \<not> dv then 1
      else 1 + max (max (get_depth_recursive c1) (get_depth_recursive c2))
                   (max (get_depth_recursive c3) (get_depth_recursive c4)))"

record Quadtree =
  qt_x_dim :: int
  qt_y_dim :: int
  qt_capacity :: int
  qt_max_depth :: int
  qt_root :: "QuadtreeNode option"
  qt_size :: int

text \<open>\<^verbatim>\<open>Quadtree.__init__\<close>.\<close>

definition Quadtree_init :: "int \<Rightarrow> int \<Rightarrow> int \<Rightarrow> int \<Rightarrow> Quadtree" where
  "Quadtree_init xd yd cap md =
     \<lparr>qt_x_dim = xd, qt_y_dim = yd, qt_capacity = cap, qt_max_depth = md,
      qt_root = None, qt_size = 0\<rparr>"

text \<open>
  The array \<^verbatim>\<open>points\<close> of shape \<open>(n_points, n_dimensions)\<close>: its second dimension
  \<^verbatim>\<open>points.shape[1]\<close> and the list of its rows, each of that many entries. An array with
  no rows still has its number of columns.
\<close>

datatype ndarray = ndarray (shape1: nat) (rows: "real list list")

text \<open>
  \<open>row_get\<close> is indexing one row, negative indices counting from the end.
  \<open>column\<close> is the slice \<^verbatim>\<open>points[:, d]\<close>: an index outside the second dimension
  raises whatever the number of rows, and so would a row shorter than the second
  dimension, which no array has.
\<close>

definition row_get :: "real list \<Rightarrow> int \<Rightarrow> error + real" where
  "row_get r i =
     (let m = int (length r); j = (if i < 0 then m + i else i)
      in if 0 \<le> j \<and> j < m then Inr (r ! nat j) else Inl IndexError)"

fun column_rows :: "real list list \<Rightarrow> int \<Rightarrow> error + real list" where
  "column_rows [] d = Inr []"
| "column_rows (r # rs) d =
     (case row_get r d of
        Inl e \<Rightarrow> Inl e
      | Inr v \<Rightarrow> (case column_rows rs d of Inl e \<Rightarrow> Inl e | Inr vs \<Rightarrow> Inr (v # vs)))"

definition column :: "ndarray \<Rightarrow> int \<Rightarrow> error + real list" where
  "column a d =
     (let m = int (shape1 a); j = (if d < 0 then m + d else d)
      in if 0 \<le> j \<and> j < m then column_rows (rows a) d else Inl IndexError)"

text \<open>\<^verbatim>\<open>.min()\<close> and \<^verbatim>\<open>.max()\<close> of a one-dimensional array; an empty one raises.\<close>

definition np_min :: "real list \<Rightarrow> error + real" where
  "np_min xs = (case xs of [] \<Rightarrow> Inl ValueError | x # r \<Rightarrow> Inr (fold min r x))"

definition np_max :: "real list \<Rightarrow> error + real" where
  "np_max xs = (case xs of [] \<Rightarrow> Inl ValueError | x # r \<Rightarrow> Inr (fold max r x))"

text \<open>
  The loop \<^verbatim>\<open>for i, idx in enumerate(indices)\<close> of \<^verbatim>\<open>build\<close>, over the rows still to
  come, each with its two coordinates; \<open>nd\<close> is \<^verbatim>\<open>points.shape[1]\<close>. An index beyond the
  last row raises; the flag returned by \<^verbatim>\<open>insert\<close> is dropped and the size counts every
  iteration.
\<close>

fun build_loop ::
  "nat \<Rightarrow> nat \<Rightarrow> QuadtreeNode \<Rightarrow> int \<Rightarrow> (real \<times> real \<times> real list) list \<Rightarrow> int list \<Rightarrow>
   error + QuadtreeNode \<times> int" where
  "build_loop L nd n sz rs [] = Inr (n, sz)"
| "build_loop L nd n sz [] (idx # idxs) = Inl IndexError"
| "build_loop L nd n sz ((x, y, row) # rs) (idx # idxs) =
     (case insert_qt L n (x, y, idx, if nd > 2 then Some row else None) of
        Inl e \<Rightarrow> Inl e
      | Inr (b, n') \<Rightarrow> build_loop L nd n' (sz + 1) rs idxs)"

text \<open>\<^verbatim>\<open>Quadtree.build\<close>, under the recursion limit \<open>L\<close>.\<close>

definition build ::
  "nat \<Rightarrow> Quadtree \<Rightarrow> ndarray \<Rightarrow> int list option \<Rightarrow> error + Quadtree" where
  "build L q pts indices =
     (let idxs = (case indices of None \<Rightarrow> map int [0..<length (rows pts)] | Some is \<Rightarrow> is) in
      case column pts (qt_x_dim q) of Inl e \<Rightarrow> Inl e | Inr x_coords \<Rightarrow>
     (case column pts (qt_y_dim q) of Inl e \<Rightarrow> Inl e | Inr y_coords \<Rightarrow>
     (case np_min x_coords of Inl e \<Rightarrow> Inl e | Inr x_lo \<Rightarrow>
     (case np_max x_coords of Inl e \<Rightarrow> Inl e | Inr x_hi \<Rightarrow>
     (case np_min y_coords of Inl e \<Rightarrow> Inl e | Inr y_lo \<Rightarrow>
     (case np_max y_coords of Inl e \<Rightarrow> Inl e | Inr y_hi \<Rightarrow>
        let x_padding = (x_hi - x_lo) * 0.01;
            y_padding = (y_hi - y_lo) * 0.01;
            root = QuadtreeNode_init (x_lo - x_padding) (x_hi + x_padding)
                     (y_lo - y_padding) (y_hi + y_padding)
                     (qt_capacity q) 0 (qt_max_depth q)
        in case build_loop L (shape1 pts) root (qt_size q)
                  (zip x_coords (zip y_coords (rows pts))) idxs of
             Inl e \<Rightarrow> Inl e
           | Inr (root', sz) \<Rightarrow> Inr (q\<lparr>qt_root := Some root', qt_size := sz\<rparr>)))))))"

text \<open>\<^verbatim>\<open>Quadtree.query_range\<close> and \<^verbatim>\<open>Quadtree.get_depth\<close>.\<close>

definition qt_query_range :: "Quadtree \<Rightarrow> real \<times> real \<Rightarrow> real \<times> real \<Rightarrow> error + int list" where
  "qt_query_range q x_range y_range =
     (case qt_root q of
        None \<Rightarrow> Inr []
      | Some r \<Rightarrow> query_range r (fst x_range) (snd x_range) (fst y_range) (snd y_range))"

definition get_depth :: "Quadtree \<Rightarrow> int" where
  "get_depth q = get_depth_recursive (qt_root q)"

subsection \<open>Observers and invariants\<close>

text \<open>The region of a node, and the fields no insertion changes.\<close>

definition region :: "QuadtreeNode \<Rightarrow> (real \<times> real) set" where
  "region n = {(x, y). contains n x y}"

definition frame :: "QuadtreeNode \<Rightarrow> real \<times> real \<times> real \<times> real \<times> int \<times> int \<times> int" where
  "frame n = (x_min n, x_max n, y_min n, y_max n, capacity n, depth n, max_depth n)"

definition px :: "point \<Rightarrow> real" where "px p = fst p"
definition py :: "point \<Rightarrow> real" where "py p = fst (snd p)"
definition pidx :: "point \<Rightarrow> int" where "pidx p = fst (snd (snd p))"

definition in_box :: "real \<Rightarrow> real \<Rightarrow> real \<Rightarrow> real \<Rightarrow> point \<Rightarrow> bool" where
  "in_box qx_min qx_max qy_min qy_max p \<longleftrightarrow>
     (qx_min \<le> px p \<and> px p \<le> qx_max) \<and> (qy_min \<le> py p \<and> py p \<le> qy_max)"

text \<open>Every tuple held in the tree below a node, each as often as it is held. Children
  count only where \<^verbatim>\<open>is_divided\<close> is set, which is where the code looks at them.\<close>

fun stored :: "QuadtreeNode \<Rightarrow> point multiset" where
  "stored (QuadtreeNode xlo xhi ylo yhi cap dp md ps dv c1 c2 c3 c4) =
     mset ps +
     (if dv then
        (case c1 of None \<Rightarrow> {#} | Some a \<Rightarrow> stored a) +
        (case c2 of None \<Rightarrow> {#} | Some a \<Rightarrow> stored a) +
        (case c3 of None \<Rightarrow> {#} | Some a \<Rightarrow> stored a) +
        (case c4 of None \<Rightarrow> {#} | Some a \<Rightarrow> stored a)
      else {#})"

text \<open>All nodes of a tree, the node itself first.\<close>

fun subnodes :: "QuadtreeNode \<Rightarrow> QuadtreeNode list" where
  "subnodes (QuadtreeNode xlo xhi ylo yhi cap dp md ps dv c1 c2 c3 c4) =
     QuadtreeNode xlo xhi ylo yhi cap dp md ps dv c1 c2 c3 c4 #
     (case c1 of None \<Rightarrow> [] | Some a \<Rightarrow> subnodes a) @
     (case c2 of None \<Rightarrow> [] | Some a \<Rightarrow> subnodes a) @
     (case c3 of None \<Rightarrow> [] | Some a \<Rightarrow> subnodes a) @
     (case c4 of None \<Rightarrow> [] | Some a \<Rightarrow> subnodes a)"

text \<open>
  The partition invariant. An undivided node has no children. A divided node holds no
  tuples itself, lies above the depth limit, and has four children: the quadrants of its
  region at the midpoints, one level deeper, with its capacity and depth limit, each
  satisfying the invariant in turn.
\<close>

fun partition_inv :: "QuadtreeNode \<Rightarrow> bool" where
  "partition_inv (QuadtreeNode xlo xhi ylo yhi cap dp md ps dv c1 c2 c3 c4) =
     (if dv then
        ps = [] \<and> dp < md \<and>
        (case c1 of None \<Rightarrow> False | Some a \<Rightarrow>
           frame a = (xlo, (xlo + xhi) / 2, (ylo + yhi) / 2, yhi, cap, dp + 1, md) \<and>
           partition_inv a) \<and>
        (case c2 of None \<Rightarrow> False | Some a \<Rightarrow>
           frame a = ((xlo + xhi) / 2, xhi, (ylo + yhi) / 2, yhi, cap, dp + 1, md) \<and>
           partition_inv a) \<and>
        (case c3 of None \<Rightarrow> False | Some a \<Rightarrow>
           frame a = (xlo, (xlo + xhi) / 2, ylo, (ylo + yhi) / 2, cap, dp + 1, md) \<and>
           partition_inv a) \<and>
        (case c4 of None \<Rightarrow> False | Some a \<Rightarrow>
           frame a = ((xlo + xhi) / 2, xhi, ylo, (ylo + yhi) / 2, cap, dp + 1, md) \<and>
           partition_inv a)
      else c1 = None \<and> c2 = None \<and> c3 = None \<and> c4 = None)"

text \<open>The state of a node between the creation of its children and the clearing of its
  own list in \<^verbatim>\<open>subdivide\<close>.\<close>

definition children_inv :: "QuadtreeNode \<Rightarrow> bool" where
  "children_inv n \<longleftrightarrow> is_divided n \<and> partition_inv (set_points [] n)"

text \<open>Every tuple a node holds lies in the node's region, at every node of the tree.\<close>

fun points_inv :: "QuadtreeNode \<Rightarrow> bool" where
  "points_inv (QuadtreeNode xlo xhi ylo yhi cap dp md ps dv c1 c2 c3 c4) =
     (list_all (\<lambda>p. (xlo \<le> px p \<and> px p \<le> xhi) \<and> (ylo \<le> py p \<and> py p \<le> yhi)) ps \<and>
      (if dv then
         (case c1 of None \<Rightarrow> True | Some a \<Rightarrow> points_inv a) \<and>
         (case c2 of None \<Rightarrow> True | Some a \<Rightarrow> points_inv a) \<and>
         (case c3 of None \<Rightarrow> True | Some a \<Rightarrow> points_inv a) \<and>
         (case c4 of None \<Rightarrow> True | Some a \<Rightarrow> points_inv a)
       else True))"

text \<open>A sequence of \<^verbatim>\<open>insert\<close> calls on one node: the flags returned, in order, and
  the node afterwards.\<close>

fun insert_seq :: "nat \<Rightarrow> QuadtreeNode \<Rightarrow> point list \<Rightarrow> error + bool list \<times> QuadtreeNode" where
  "insert_seq L n [] = Inr ([], n)"
| "insert_seq L n (p # ps) =
     (case insert_qt L n p of
        Inl e \<Rightarrow> Inl e
      | Inr (b, n') \<Rightarrow>
          (case insert_seq L n' ps of Inl e \<Rightarrow> Inl e | Inr (bs, n'') \<Rightarrow> Inr (b # bs, n'')))"

text \<open>The tuples the loop of \<^verbatim>\<open>build\<close> hands to \<^verbatim>\<open>insert\<close>, in order.\<close>

definition build_tuples ::
  "nat \<Rightarrow> (real \<times> real \<times> real list) list \<Rightarrow> int list \<Rightarrow> point list" where
  "build_tuples nd rs idxs =
     map (\<lambda>((x, y, row), idx). (x, y, idx, if nd > 2 then Some row else None)) (zip rs idxs)"

text \<open>
  The nodes a program can reach: a node as the constructor leaves it, the root a
  \<^verbatim>\<open>build\<close> that returned has set, and the node after an \<^verbatim>\<open>insert\<close> that returned on
  a node reached before.
\<close>

inductive reachable :: "QuadtreeNode \<Rightarrow> bool" where
  fresh: "reachable (QuadtreeNode_init xlo xhi ylo yhi cap d md)"
| built: "build L q a ix = Inr q' \<Longrightarrow> qt_root q' = Some r \<Longrightarrow> reachable r"
| inserted: "reachable n \<Longrightarrow> insert_qt L n p = Inr (b, n') \<Longrightarrow> reachable n'"

subsection \<open>Contracts for the recursive call\<close>

text \<open>
  What the helpers need of the call \<open>ins\<close> they are given. \<open>ins_ok\<close>: a call that
  returns keeps the partition invariant and the fixed fields, returns whether the node's
  region contains the point, and adds the tuple to the stored ones exactly when it returns
  \<^verbatim>\<open>True\<close>. \<open>ins_tot ins d\<close>: the call returns on every node with at most \<open>d\<close> levels
  left below it.
\<close>

definition ins_ok :: "(QuadtreeNode \<Rightarrow> point \<Rightarrow> error + bool \<times> QuadtreeNode) \<Rightarrow> bool" where
  "ins_ok ins \<longleftrightarrow>
     (\<forall>c p b c'. partition_inv c \<longrightarrow> ins c p = Inr (b, c') \<longrightarrow>
        partition_inv c' \<and> frame c' = frame c \<and> (b \<longleftrightarrow> contains c (px p) (py p)) \<and>
        (points_inv c \<longrightarrow> points_inv c' \<and> stored c' = stored c + (if b then {#p#} else {#})))"

definition ins_tot ::
  "(QuadtreeNode \<Rightarrow> point \<Rightarrow> error + bool \<times> QuadtreeNode) \<Rightarrow> int \<Rightarrow> bool" where
  "ins_tot ins d \<longleftrightarrow>
     (\<forall>c p. partition_inv c \<longrightarrow> max_depth c - depth c \<le> d \<longrightarrow> (\<exists>b c'. ins c p = Inr (b, c')))"

subsection \<open>Worked examples\<close>

text \<open>The tree after two inserts of one point into a unit node of capacity 1 and depth
  limit 1.\<close>

definition tree_two_coincident :: QuadtreeNode where
  "tree_two_coincident =
     QuadtreeNode 0 1 0 1 1 0 1 [] True
       (Some (QuadtreeNode 0 (1 / 2) (1 / 2) 1 1 1 1
          [(1 / 2, 1 / 2, 0, None), (1 / 2, 1 / 2, 1, None)] False None None None None))
       (Some (QuadtreeNode (1 / 2) 1 (1 / 2) 1 1 1 1 [] False None None None None))
       (Some (QuadtreeNode 0 (1 / 2) 0 (1 / 2) 1 1 1 [] False None None None None))
       (Some (QuadtreeNode (1 / 2) 1 0 (1 / 2) 1 1 1 [] False None None None None))"

text \<open>The tree after four inserts into a unit node of capacity 1 and depth limit 2; the
  third point lies outside the node.\<close>

definition tree_four_inserts :: QuadtreeNode where
  "tree_four_inserts =
     QuadtreeNode 0 1 0 1 1 0 2 [] True
       (Some (QuadtreeNode 0 (1 / 2) (1 / 2) 1 1 1 2 [(1 / 2, 1 / 2, 13, None)]
          False None None None None))
       (Some (QuadtreeNode (1 / 2) 1 (1 / 2) 1 1 1 2 [(3 / 4, 3 / 4, 11, None)]
          False None None None None))
       (Some (QuadtreeNode 0 (1 / 2) 0 (1 / 2) 1 1 2 [(1 / 4, 1 / 4, 10, None)]
          False None None None None))
       (Some (QuadtreeNode (1 / 2) 1 0 (1 / 2) 1 1 2 [] False None None None None))"

subsection \<open>The nesting of calls and the cover by quadrants\<close>

text \<open>The four bounds of a node.\<close>

definition bounds :: "QuadtreeNode \<Rightarrow> real \<times> real \<times> real \<times> real" where
  "bounds n = (x_min n, x_max n, y_min n, y_max n)"

text \<open>
  A bound on the number of \<^verbatim>\<open>insert\<close> calls nested in one another when a point is
  inserted at a node, the call at the node itself counted: a leaf can still be split
  \<^verbatim>\<open>max_depth - depth\<close> times, and a divided node passes the point to one child.
\<close>

fun nesting :: "QuadtreeNode \<Rightarrow> nat" where
  "nesting (QuadtreeNode xlo xhi ylo yhi cap dp md ps dv c1 c2 c3 c4) =
     (if dv then
        1 + max (max (case c1 of None \<Rightarrow> 0 | Some a \<Rightarrow> nesting a)
                     (case c2 of None \<Rightarrow> 0 | Some a \<Rightarrow> nesting a))
                (max (case c3 of None \<Rightarrow> 0 | Some a \<Rightarrow> nesting a)
                     (case c4 of None \<Rightarrow> 0 | Some a \<Rightarrow> nesting a))
      else 1 + nat (md - dp))"

text \<open>
  The part of the partition invariant that makes every insert of a contained point
  succeed: every divided node of the tree has its four children, and their regions are
  the quadrants of its own region at the two midpoints.
\<close>

fun covered :: "QuadtreeNode \<Rightarrow> bool" where
  "covered (QuadtreeNode xlo xhi ylo yhi cap dp md ps dv c1 c2 c3 c4) =
     (if dv then
        (case c1 of None \<Rightarrow> False | Some a \<Rightarrow>
           bounds a = (xlo, (xlo + xhi) / 2, (ylo + yhi) / 2, yhi) \<and> covered a) \<and>
        (case c2 of None \<Rightarrow> False | Some a \<Rightarrow>
           bounds a = ((xlo + xhi) / 2, xhi, (ylo + yhi) / 2, yhi) \<and> covered a) \<and>
        (case c3 of None \<Rightarrow> False | Some a \<Rightarrow>
           bounds a = (xlo, (xlo + xhi) / 2, ylo, (ylo + yhi) / 2) \<and> covered a) \<and>
        (case c4 of None \<Rightarrow> False | Some a \<Rightarrow>
           bounds a = ((xlo + xhi) / 2, xhi, ylo, (ylo + yhi) / 2) \<and> covered a)
      else True)"

text \<open>\<open>ins_cov ins k\<close>: on a node covered by quadrants that needs at most \<open>k\<close> nested
  calls, the call returns whether the region contains the point, and the node afterwards
  is covered, has the same bounds and needs no more nested calls than before.\<close>

definition ins_cov ::
  "(QuadtreeNode \<Rightarrow> point \<Rightarrow> error + bool \<times> QuadtreeNode) \<Rightarrow> nat \<Rightarrow> bool" where
  "ins_cov ins k \<longleftrightarrow>
     (\<forall>c p. covered c \<longrightarrow> nesting c \<le> k \<longrightarrow>
        (\<exists>c'. ins c p = Inr (contains c (px p) (py p), c') \<and> covered c' \<and>
              bounds c' = bounds c \<and> nesting c' \<le> nesting c))"

text \<open>\<open>ins_term ins k\<close>: on any node that needs at most \<open>k\<close> nested calls, the call does
  not exceed the recursion limit, and when it returns the node needs no more nested calls
  than before.\<close>

definition ins_term ::
  "(QuadtreeNode \<Rightarrow> point \<Rightarrow> error + bool \<times> QuadtreeNode) \<Rightarrow> nat \<Rightarrow> bool" where
  "ins_term ins k \<longleftrightarrow>
     (\<forall>c p. nesting c \<le> k \<longrightarrow>
        ins c p \<noteq> Inl RecursionError \<and>
        (\<forall>b c'. ins c p = Inr (b, c') \<longrightarrow> nesting c' \<le> nesting c))"

section \<open>Basic facts\<close>

lemma sel_set [simp]:
  "x_min (set_points ps n) = x_min n" "x_max (set_points ps n) = x_max n"
  "y_min (set_points ps n) = y_min n" "y_max (set_points ps n) = y_max n"
  "capacity (set_points ps n) = capacity n" "depth (set_points ps n) = depth n"
  "max_depth (set_points ps n) = max_depth n" "points (set_points ps n) = ps"
  "is_divided (set_points ps n) = is_divided n"
  "nw (set_points ps n) = nw n" "ne (set_points ps n) = ne n"
  "sw (set_points ps n) = sw n" "se (set_points ps n) = se n"
  by (simp_all add: set_points_def)

lemma partition_inv_sel:
  "partition_inv n \<longleftrightarrow>
     (if is_divided n then
        points n = [] \<and> depth n < max_depth n \<and>
        (\<exists>a1 a2 a3 a4. nw n = Some a1 \<and> ne n = Some a2 \<and> sw n = Some a3 \<and> se n = Some a4 \<and>
           frame a1 = (x_min n, (x_min n + x_max n) / 2, (y_min n + y_max n) / 2, y_max n,
                       capacity n, depth n + 1, max_depth n) \<and>
           frame a2 = ((x_min n + x_max n) / 2, x_max n, (y_min n + y_max n) / 2, y_max n,
                       capacity n, depth n + 1, max_depth n) \<and>
           frame a3 = (x_min n, (x_min n + x_max n) / 2, y_min n, (y_min n + y_max n) / 2,
                       capacity n, depth n + 1, max_depth n) \<and>
           frame a4 = ((x_min n + x_max n) / 2, x_max n, y_min n, (y_min n + y_max n) / 2,
                       capacity n, depth n + 1, max_depth n) \<and>
           partition_inv a1 \<and> partition_inv a2 \<and> partition_inv a3 \<and> partition_inv a4)
      else nw n = None \<and> ne n = None \<and> sw n = None \<and> se n = None)"
  by (cases n) (auto split: option.splits)


lemma sel_set_nw [simp]:
  "x_min (set_nw c n) = x_min n" "x_max (set_nw c n) = x_max n"
  "y_min (set_nw c n) = y_min n" "y_max (set_nw c n) = y_max n"
  "capacity (set_nw c n) = capacity n" "depth (set_nw c n) = depth n"
  "max_depth (set_nw c n) = max_depth n" "points (set_nw c n) = points n"
  "is_divided (set_nw c n) = is_divided n"
  "nw (set_nw c n) = c" "ne (set_nw c n) = ne n"
  "sw (set_nw c n) = sw n" "se (set_nw c n) = se n"
  by (simp_all add: set_nw_def)

lemma sel_set_ne [simp]:
  "x_min (set_ne c n) = x_min n" "x_max (set_ne c n) = x_max n"
  "y_min (set_ne c n) = y_min n" "y_max (set_ne c n) = y_max n"
  "capacity (set_ne c n) = capacity n" "depth (set_ne c n) = depth n"
  "max_depth (set_ne c n) = max_depth n" "points (set_ne c n) = points n"
  "is_divided (set_ne c n) = is_divided n"
  "nw (set_ne c n) = nw n" "ne (set_ne c n) = c"
  "sw (set_ne c n) = sw n" "se (set_ne c n) = se n"
  by (simp_all add: set_ne_def)

lemma sel_set_sw [simp]:
  "x_min (set_sw c n) = x_min n" "x_max (set_sw c n) = x_max n"
  "y_min (set_sw c n) = y_min n" "y_max (set_sw c n) = y_max n"
  "capacity (set_sw c n) = capacity n" "depth (set_sw c n) = depth n"
  "max_depth (set_sw c n) = max_depth n" "points (set_sw c n) = points n"
  "is_divided (set_sw c n) = is_divided n"
  "nw (set_sw c n) = nw n" "ne (set_sw c n) = ne n"
  "sw (set_sw c n) = c" "se (set_sw c n) = se n"
  by (simp_all add: set_sw_def)

lemma sel_set_se [simp]:
  "x_min (set_se c n) = x_min n" "x_max (set_se c n) = x_max n"
  "y_min (set_se c n) = y_min n" "y_max (set_se c n) = y_max n"
  "capacity (set_se c n) = capacity n" "depth (set_se c n) = depth n"
  "max_depth (set_se c n) = max_depth n" "points (set_se c n) = points n"
  "is_divided (set_se c n) = is_divided n"
  "nw (set_se c n) = nw n" "ne (set_se c n) = ne n"
  "sw (set_se c n) = sw n" "se (set_se c n) = c"
  by (simp_all add: set_se_def)

lemma frame_set [simp]:
  "frame (set_points ps n) = frame n" "frame (set_nw c n) = frame n"
  "frame (set_ne c n) = frame n" "frame (set_sw c n) = frame n" "frame (set_se c n) = frame n"
  by (simp_all add: frame_def)

lemma contains_set [simp]:
  "contains (set_points ps n) x y = contains n x y" "contains (set_nw c n) x y = contains n x y"
  "contains (set_ne c n) x y = contains n x y" "contains (set_sw c n) x y = contains n x y"
  "contains (set_se c n) x y = contains n x y"
  by (simp_all add: contains_def)

lemma contains_frame: "frame a = frame b \<Longrightarrow> contains a x y = contains b x y"
  by (simp add: frame_def contains_def)

lemma stored_sel:
  "stored n = mset (points n) +
     (if is_divided n then
        (case nw n of None \<Rightarrow> {#} | Some a \<Rightarrow> stored a) +
        (case ne n of None \<Rightarrow> {#} | Some a \<Rightarrow> stored a) +
        (case sw n of None \<Rightarrow> {#} | Some a \<Rightarrow> stored a) +
        (case se n of None \<Rightarrow> {#} | Some a \<Rightarrow> stored a)
      else {#})"
  by (cases n) simp

lemma points_inv_sel:
  "points_inv n \<longleftrightarrow>
     (\<forall>p \<in> set (points n). contains n (px p) (py p)) \<and>
     (if is_divided n then
        (case nw n of None \<Rightarrow> True | Some a \<Rightarrow> points_inv a) \<and>
        (case ne n of None \<Rightarrow> True | Some a \<Rightarrow> points_inv a) \<and>
        (case sw n of None \<Rightarrow> True | Some a \<Rightarrow> points_inv a) \<and>
        (case se n of None \<Rightarrow> True | Some a \<Rightarrow> points_inv a)
      else True)"
  by (cases n) (simp add: contains_def list_all_iff)

lemma children_inv_sel:
  "children_inv n \<longleftrightarrow>
     is_divided n \<and> depth n < max_depth n \<and>
     (\<exists>a1 a2 a3 a4. nw n = Some a1 \<and> ne n = Some a2 \<and> sw n = Some a3 \<and> se n = Some a4 \<and>
        frame a1 = (x_min n, (x_min n + x_max n) / 2, (y_min n + y_max n) / 2, y_max n,
                    capacity n, depth n + 1, max_depth n) \<and>
        frame a2 = ((x_min n + x_max n) / 2, x_max n, (y_min n + y_max n) / 2, y_max n,
                    capacity n, depth n + 1, max_depth n) \<and>
        frame a3 = (x_min n, (x_min n + x_max n) / 2, y_min n, (y_min n + y_max n) / 2,
                    capacity n, depth n + 1, max_depth n) \<and>
        frame a4 = ((x_min n + x_max n) / 2, x_max n, y_min n, (y_min n + y_max n) / 2,
                    capacity n, depth n + 1, max_depth n) \<and>
        partition_inv a1 \<and> partition_inv a2 \<and> partition_inv a3 \<and> partition_inv a4)"
  unfolding children_inv_def by (subst partition_inv_sel) auto

lemma insert_to_child_cases:
  assumes "insert_to_child ins n p = Inr (b, n')"
    and "nw n = Some a1" "ne n = Some a2" "sw n = Some a3" "se n = Some a4"
  shows "(contains a1 (px p) (py p) \<and> (\<exists>c'. ins a1 p = Inr (b, c') \<and> n' = set_nw (Some c') n)) \<or>
         (\<not> contains a1 (px p) (py p) \<and> contains a2 (px p) (py p) \<and>
            (\<exists>c'. ins a2 p = Inr (b, c') \<and> n' = set_ne (Some c') n)) \<or>
         (\<not> contains a1 (px p) (py p) \<and> \<not> contains a2 (px p) (py p) \<and> contains a3 (px p) (py p) \<and>
            (\<exists>c'. ins a3 p = Inr (b, c') \<and> n' = set_sw (Some c') n)) \<or>
         (\<not> contains a1 (px p) (py p) \<and> \<not> contains a2 (px p) (py p) \<and>
          \<not> contains a3 (px p) (py p) \<and> contains a4 (px p) (py p) \<and>
            (\<exists>c'. ins a4 p = Inr (b, c') \<and> n' = set_se (Some c') n)) \<or>
         (\<not> contains a1 (px p) (py p) \<and> \<not> contains a2 (px p) (py p) \<and>
          \<not> contains a3 (px p) (py p) \<and> \<not> contains a4 (px p) (py p) \<and> \<not> b \<and> n' = n)"
  using assms
  by (cases p) (auto simp: insert_to_child_def px_def py_def split: if_splits sum.splits)

lemma ins_okD:
  assumes "ins_ok ins" "partition_inv c" "ins c p = Inr (b, c')"
  shows "partition_inv c'" "frame c' = frame c" "b \<longleftrightarrow> contains c (px p) (py p)"
    "points_inv c \<Longrightarrow> points_inv c'"
    "points_inv c \<Longrightarrow> stored c' = stored c + (if b then {#p#} else {#})"
  using assms unfolding ins_ok_def by blast+

lemma quadrant_cover:
  assumes "frame a1 = (x_min n, (x_min n + x_max n) / 2, (y_min n + y_max n) / 2, y_max n, k1)"
    and "frame a2 = ((x_min n + x_max n) / 2, x_max n, (y_min n + y_max n) / 2, y_max n, k2)"
    and "frame a3 = (x_min n, (x_min n + x_max n) / 2, y_min n, (y_min n + y_max n) / 2, k3)"
    and "frame a4 = ((x_min n + x_max n) / 2, x_max n, y_min n, (y_min n + y_max n) / 2, k4)"
  shows "contains n x y \<longleftrightarrow>
           contains a1 x y \<or> contains a2 x y \<or> contains a3 x y \<or> contains a4 x y"
  using assms unfolding frame_def contains_def by (auto simp: field_simps)

lemma itc_ok:
  assumes ok: "ins_ok ins" and ci: "children_inv n"
    and itc: "insert_to_child ins n p = Inr (b, n')"
  shows "children_inv n' \<and> frame n' = frame n \<and> points n' = points n \<and>
         (b \<longleftrightarrow> contains n (px p) (py p)) \<and>
         (points_inv n \<longrightarrow> points_inv n' \<and> stored n' = stored n + (if b then {#p#} else {#}))"
proof -
  from ci obtain a1 a2 a3 a4 where
    ch: "nw n = Some a1" "ne n = Some a2" "sw n = Some a3" "se n = Some a4" and
    fr: "frame a1 = (x_min n, (x_min n + x_max n) / 2, (y_min n + y_max n) / 2, y_max n,
                    capacity n, depth n + 1, max_depth n)"
        "frame a2 = ((x_min n + x_max n) / 2, x_max n, (y_min n + y_max n) / 2, y_max n,
                    capacity n, depth n + 1, max_depth n)"
        "frame a3 = (x_min n, (x_min n + x_max n) / 2, y_min n, (y_min n + y_max n) / 2,
                    capacity n, depth n + 1, max_depth n)"
        "frame a4 = ((x_min n + x_max n) / 2, x_max n, y_min n, (y_min n + y_max n) / 2,
                    capacity n, depth n + 1, max_depth n)" and
    pi: "partition_inv a1" "partition_inv a2" "partition_inv a3" "partition_inv a4" and
    dv: "is_divided n" "depth n < max_depth n"
    unfolding children_inv_sel by blast
  note cov = quadrant_cover[OF fr, of "px p" "py p"]
  from insert_to_child_cases[OF itc ch]
  consider
    (c1) c' where "contains a1 (px p) (py p)" "ins a1 p = Inr (b, c')" "n' = set_nw (Some c') n"
  | (c2) c' where "contains a2 (px p) (py p)" "ins a2 p = Inr (b, c')" "n' = set_ne (Some c') n"
  | (c3) c' where "contains a3 (px p) (py p)" "ins a3 p = Inr (b, c')" "n' = set_sw (Some c') n"
  | (c4) c' where "contains a4 (px p) (py p)" "ins a4 p = Inr (b, c')" "n' = set_se (Some c') n"
  | (none) "\<not> contains n (px p) (py p)" "\<not> b" "n' = n"
    using cov by blast
  then show ?thesis
  proof cases
    case c1
    note f = ins_okD[OF ok pi(1) c1(2)]
    show ?thesis using f c1(1,3) ch fr pi dv cov
      by (simp add: children_inv_sel points_inv_sel[of n] points_inv_sel[of "set_nw (Some c') n"]
            stored_sel[of n] stored_sel[of "set_nw (Some c') n"])
  next
    case c2
    note f = ins_okD[OF ok pi(2) c2(2)]
    show ?thesis using f c2(1,3) ch fr pi dv cov
      by (simp add: children_inv_sel points_inv_sel[of n] points_inv_sel[of "set_ne (Some c') n"]
            stored_sel[of n] stored_sel[of "set_ne (Some c') n"])
  next
    case c3
    note f = ins_okD[OF ok pi(3) c3(2)]
    show ?thesis using f c3(1,3) ch fr pi dv cov
      by (simp add: children_inv_sel points_inv_sel[of n] points_inv_sel[of "set_sw (Some c') n"]
            stored_sel[of n] stored_sel[of "set_sw (Some c') n"])
  next
    case c4
    note f = ins_okD[OF ok pi(4) c4(2)]
    show ?thesis using f c4(1,3) ch fr pi dv cov
      by (simp add: children_inv_sel points_inv_sel[of n] points_inv_sel[of "set_se (Some c') n"]
            stored_sel[of n] stored_sel[of "set_se (Some c') n"])
  next
    case none
    then show ?thesis using ci by simp
  qed
qed

section \<open>Insertion keeps the invariants\<close>

lemma redistribute_ok:
  assumes ok: "ins_ok ins"
  shows "children_inv n \<Longrightarrow> redistribute ins n ps = Inr n' \<Longrightarrow>
         children_inv n' \<and> frame n' = frame n \<and> points n' = points n \<and>
         (points_inv n \<longrightarrow> points_inv n' \<and>
            stored n' = stored n + mset (filter (\<lambda>p. contains n (px p) (py p)) ps))"
proof (induction ps arbitrary: n)
  case Nil
  then show ?case by simp
next
  case (Cons p ps)
  from Cons.prems(2) obtain b m where
    st: "insert_to_child ins n p = Inr (b, m)" and rest: "redistribute ins m ps = Inr n'"
    by (auto split: sum.splits)
  note a = itc_ok[OF ok Cons.prems(1) st]
  from a have cm: "children_inv m" by simp
  note r = Cons.IH[OF cm rest]
  have cf: "\<And>q. contains m (px q) (py q) = contains n (px q) (py q)"
    using a by (simp add: contains_def frame_def)
  show ?case using a r by (auto simp: cf)
qed

lemma partition_inv_init [simp]: "partition_inv (QuadtreeNode_init xlo xhi ylo yhi cap d md)"
  by (simp add: QuadtreeNode_init_def)

lemma points_inv_init [simp]: "points_inv (QuadtreeNode_init xlo xhi ylo yhi cap d md)"
  by (simp add: QuadtreeNode_init_def)

lemma stored_init [simp]: "stored (QuadtreeNode_init xlo xhi ylo yhi cap d md) = {#}"
  by (simp add: QuadtreeNode_init_def)

lemma frame_init [simp]:
  "frame (QuadtreeNode_init xlo xhi ylo yhi cap d md) = (xlo, xhi, ylo, yhi, cap, d, md)"
  by (simp add: QuadtreeNode_init_def frame_def)

lemma subdivide_ok:
  assumes ok: "ins_ok ins" and pi: "partition_inv n" and leaf: "\<not> is_divided n"
    and sd: "subdivide ins n = Inr n1"
  shows "frame n1 = frame n \<and> partition_inv n1 \<and> (\<not> is_divided n1 \<longrightarrow> n1 = n) \<and>
         (points_inv n \<longrightarrow> points_inv n1 \<and> stored n1 = stored n)"
proof (cases "depth n \<ge> max_depth n \<or> (length (points n) > 1 \<and> all_same (points n))")
  case True
  then have "subdivide ins n = Inr n" by (auto simp: subdivide_def)
  then have "n1 = n" using sd by simp
  then show ?thesis using pi by simp
next
  case False
  define n0 where "n0 = QuadtreeNode (x_min n) (x_max n) (y_min n) (y_max n)
                   (capacity n) (depth n) (max_depth n) (points n) True
                   (Some (QuadtreeNode_init (x_min n) ((x_min n + x_max n) / 2)
                            ((y_min n + y_max n) / 2) (y_max n)
                            (capacity n) (depth n + 1) (max_depth n)))
                   (Some (QuadtreeNode_init ((x_min n + x_max n) / 2) (x_max n)
                            ((y_min n + y_max n) / 2) (y_max n)
                            (capacity n) (depth n + 1) (max_depth n)))
                   (Some (QuadtreeNode_init (x_min n) ((x_min n + x_max n) / 2)
                            (y_min n) ((y_min n + y_max n) / 2)
                            (capacity n) (depth n + 1) (max_depth n)))
                   (Some (QuadtreeNode_init ((x_min n + x_max n) / 2) (x_max n)
                            (y_min n) ((y_min n + y_max n) / 2)
                            (capacity n) (depth n + 1) (max_depth n)))"
  have "subdivide ins n =
          (case redistribute ins n0 (points n) of
             Inl e \<Rightarrow> Inl e | Inr n2 \<Rightarrow> Inr (set_points [] n2))"
    using False by (auto simp: subdivide_def n0_def Let_def)
  with sd obtain n2 where
    rd: "redistribute ins n0 (points n) = Inr n2" and n1: "n1 = set_points [] n2"
    by (auto split: sum.splits)
  have ci0: "children_inv n0"
    using False by (simp add: children_inv_sel n0_def)
  have f0: "frame n0 = frame n" "points n0 = points n"
    by (simp_all add: n0_def frame_def)
  note r = redistribute_ok[OF ok ci0 rd]
  have c0: "\<And>q. contains n0 (px q) (py q) = contains n (px q) (py q)"
    by (simp add: contains_def n0_def)
  have p1: "partition_inv n1"
    using r n1 by (simp add: children_inv_def)
  have "points_inv n1 \<and> stored n1 = stored n" if pv: "points_inv n"
  proof -
    have allc: "\<forall>p \<in> set (points n). contains n (px p) (py p)"
      using pv by (simp add: points_inv_sel[of n])
    have pv0: "points_inv n0"
      using allc by (simp add: n0_def contains_def list_all_iff)
    have s0: "stored n0 = mset (points n)"
      by (simp add: n0_def)
    have flt: "filter (\<lambda>p. contains n0 (px p) (py p)) (points n) = points n"
      using allc by (simp add: c0)
    from r pv0 have pv2: "points_inv n2" and
      s2: "stored n2 = mset (points n) + mset (points n)"
      by (simp_all add: s0 flt)
    have dv2: "is_divided n2" using r by (simp add: children_inv_def)
    have p2: "points n2 = points n" using r f0 by simp
    have sn: "stored n = mset (points n)"
      using leaf by (simp add: stored_sel[of n])
    have "stored n1 = stored n"
      using s2 dv2 p2 sn by (simp add: n1 stored_sel[of n2] stored_sel[of "set_points [] n2"])
    moreover have "points_inv n1"
      using pv2 by (simp add: n1 points_inv_sel[of n2] points_inv_sel[of "set_points [] n2"])
    ultimately show ?thesis by simp
  qed
  moreover have "is_divided n1" using r n1 by (simp add: children_inv_def)
  moreover have "frame n1 = frame n" using r n1 f0 by simp
  ultimately show ?thesis using p1 by simp
qed


lemma insert_body_ok:
  assumes ok: "ins_ok ins"
  shows "ins_ok (insert_body ins)"
  unfolding ins_ok_def
proof (intro allI impI)
  fix c p b c'
  assume pi: "partition_inv c" and ib: "insert_body ins c p = Inr (b, c')"
  let ?G = "partition_inv c' \<and> frame c' = frame c \<and> (b \<longleftrightarrow> contains c (px p) (py p)) \<and>
        (points_inv c \<longrightarrow> points_inv c' \<and> stored c' = stored c + (if b then {#p#} else {#}))"
  have app: "partition_inv (set_points (points m @ [p]) m) \<and>
             frame (set_points (points m @ [p]) m) = frame m \<and>
             (points_inv m \<longrightarrow> points_inv (set_points (points m @ [p]) m) \<and>
                stored (set_points (points m @ [p]) m) = stored m + {#p#})"
    if "partition_inv m" "\<not> is_divided m" "contains m (px p) (py p)" for m
    using that
    by (simp add: partition_inv_sel[of m] partition_inv_sel[of "set_points (points m @ [p]) m"]
          points_inv_sel[of m] points_inv_sel[of "set_points (points m @ [p]) m"]
          stored_sel[of m] stored_sel[of "set_points (points m @ [p]) m"])
  show ?G
  proof (cases "contains c (px p) (py p)")
    case False
    then have "insert_body ins c p = Inr (False, c)"
      by (cases p) (simp add: insert_body_def px_def py_def)
    with ib pi False show ?thesis by simp
  next
    case True
    show ?thesis
    proof (cases "is_divided c")
      case dv: True
      then have "insert_body ins c p = insert_to_child ins c p"
        using True by (cases p) (simp add: insert_body_def px_def py_def)
      with ib have itc: "insert_to_child ins c p = Inr (b, c')" by simp
      have ci: "children_inv c" and pe: "points c = []"
        using pi dv by (simp_all add: children_inv_sel partition_inv_sel[of c])
      note a = itc_ok[OF ok ci itc]
      have "partition_inv c'"
        using a pe by (simp add: children_inv_sel partition_inv_sel[of c'])
      then show ?thesis using a by simp
    next
      case leaf: False
      show ?thesis
      proof (cases "int (length (points c)) < capacity c \<or> depth c \<ge> max_depth c")
        case room: True
        then have "insert_body ins c p = Inr (True, set_points (points c @ [p]) c)"
          using True leaf by (cases p) (auto simp: insert_body_def px_def py_def)
        with ib have "b" "c' = set_points (points c @ [p]) c" by simp_all
        then show ?thesis using app[OF pi leaf True] True by simp
      next
        case full: False
        then have eq: "insert_body ins c p =
            (case subdivide ins c of
               Inl e \<Rightarrow> Inl e
             | Inr n1 \<Rightarrow>
                 if \<not> is_divided n1 then Inr (True, set_points (points n1 @ [p]) n1)
                 else insert_to_child ins n1 p)"
          using True leaf by (cases p) (auto simp: insert_body_def px_def py_def)
        with ib obtain n1 where sd: "subdivide ins c = Inr n1" and
          r1: "(if \<not> is_divided n1 then Inr (True, set_points (points n1 @ [p]) n1)
                else insert_to_child ins n1 p) = Inr (b, c')"
          by (auto split: sum.splits)
        note s = subdivide_ok[OF ok pi leaf sd]
        show ?thesis
        proof (cases "is_divided n1")
          case False
          with s have "n1 = c" by simp
          with r1 False have "b" "c' = set_points (points c @ [p]) c" by simp_all
          then show ?thesis using app[OF pi leaf True] True by simp
        next
          case dv1: True
          with r1 have itc: "insert_to_child ins n1 p = Inr (b, c')" by simp
          have ci: "children_inv n1" and pe: "points n1 = []"
            using s dv1 by (simp_all add: children_inv_sel partition_inv_sel[of n1])
          note a = itc_ok[OF ok ci itc]
          have "partition_inv c'"
            using a pe by (simp add: children_inv_sel partition_inv_sel[of c'])
          moreover have "contains n1 (px p) (py p) = contains c (px p) (py p)"
            using s by (simp add: contains_def frame_def)
          ultimately show ?thesis using a s by simp
        qed
      qed
    qed
  qed
qed

lemma insert_qt_ok: "ins_ok (insert_qt k)"
proof (induction k)
  case 0
  have "insert_qt 0 = (\<lambda>n p. Inl RecursionError)" by (intro ext) simp
  then show ?case by (simp add: ins_ok_def)
next
  case (Suc k)
  have "insert_qt (Suc k) = insert_body (insert_qt k)" by (intro ext) simp
  then show ?case using insert_body_ok[OF Suc] by simp
qed

section \<open>Insertion returns\<close>

lemma insert_to_child_tot:
  assumes tot: "ins_tot ins d" and ci: "children_inv n" and bd: "max_depth n - depth n \<le> d + 1"
  shows "\<exists>b n'. insert_to_child ins n p = Inr (b, n')"
proof -
  from ci obtain a1 a2 a3 a4 where
    ch: "nw n = Some a1" "ne n = Some a2" "sw n = Some a3" "se n = Some a4" and
    dp: "depth a1 = depth n + 1" "depth a2 = depth n + 1" "depth a3 = depth n + 1"
        "depth a4 = depth n + 1" and
    md: "max_depth a1 = max_depth n" "max_depth a2 = max_depth n" "max_depth a3 = max_depth n"
        "max_depth a4 = max_depth n" and
    pi: "partition_inv a1" "partition_inv a2" "partition_inv a3" "partition_inv a4"
    unfolding children_inv_sel frame_def by auto
  have t: "\<exists>b c'. ins a p = Inr (b, c')"
    if "partition_inv a" "depth a = depth n + 1" "max_depth a = max_depth n" for a
    using tot[unfolded ins_tot_def, rule_format, of a p] that bd by simp
  from t[OF pi(1) dp(1) md(1)] t[OF pi(2) dp(2) md(2)] t[OF pi(3) dp(3) md(3)]
       t[OF pi(4) dp(4) md(4)]
  show ?thesis
    by (cases p) (auto simp: insert_to_child_def ch)
qed

lemma redistribute_tot:
  assumes ok: "ins_ok ins" and tot: "ins_tot ins d"
  shows "children_inv n \<Longrightarrow> max_depth n - depth n \<le> d + 1 \<Longrightarrow>
         \<exists>n'. redistribute ins n ps = Inr n'"
proof (induction ps arbitrary: n)
  case Nil
  then show ?case by simp
next
  case (Cons p ps)
  from insert_to_child_tot[OF tot Cons.prems] obtain b m where
    st: "insert_to_child ins n p = Inr (b, m)" by blast
  note a = itc_ok[OF ok Cons.prems(1) st]
  have "max_depth m - depth m \<le> d + 1"
    using a Cons.prems(2) by (simp add: frame_def)
  with Cons.IH[of m] a obtain n' where "redistribute ins m ps = Inr n'" by blast
  with st show ?case by simp
qed


lemma subdivide_tot:
  assumes ok: "ins_ok ins" and tot: "ins_tot ins d" and pi: "partition_inv n"
    and leaf: "\<not> is_divided n" and bd: "max_depth n - depth n \<le> d + 1"
  shows "\<exists>n1. subdivide ins n = Inr n1"
proof (cases "depth n \<ge> max_depth n \<or> (length (points n) > 1 \<and> all_same (points n))")
  case True
  then have "subdivide ins n = Inr n" by (auto simp: subdivide_def)
  then show ?thesis by simp
next
  case False
  define n0 where "n0 = QuadtreeNode (x_min n) (x_max n) (y_min n) (y_max n)
                   (capacity n) (depth n) (max_depth n) (points n) True
                   (Some (QuadtreeNode_init (x_min n) ((x_min n + x_max n) / 2)
                            ((y_min n + y_max n) / 2) (y_max n)
                            (capacity n) (depth n + 1) (max_depth n)))
                   (Some (QuadtreeNode_init ((x_min n + x_max n) / 2) (x_max n)
                            ((y_min n + y_max n) / 2) (y_max n)
                            (capacity n) (depth n + 1) (max_depth n)))
                   (Some (QuadtreeNode_init (x_min n) ((x_min n + x_max n) / 2)
                            (y_min n) ((y_min n + y_max n) / 2)
                            (capacity n) (depth n + 1) (max_depth n)))
                   (Some (QuadtreeNode_init ((x_min n + x_max n) / 2) (x_max n)
                            (y_min n) ((y_min n + y_max n) / 2)
                            (capacity n) (depth n + 1) (max_depth n)))"
  have eq: "subdivide ins n =
          (case redistribute ins n0 (points n) of
             Inl e \<Rightarrow> Inl e | Inr n2 \<Rightarrow> Inr (set_points [] n2))"
    using False by (auto simp: subdivide_def n0_def Let_def)
  have ci0: "children_inv n0"
    using False by (simp add: children_inv_sel n0_def)
  have "max_depth n0 - depth n0 \<le> d + 1"
    using bd by (simp add: n0_def)
  from redistribute_tot[OF ok tot ci0 this, of "points n"] show ?thesis
    by (auto simp: eq)
qed

lemma insert_body_tot0: "ins_tot (insert_body ins) 0"
  unfolding ins_tot_def
proof (intro allI impI)
  fix c :: QuadtreeNode and p :: point
  assume pi: "partition_inv c" and bd: "max_depth c - depth c \<le> 0"
  have leaf: "\<not> is_divided c"
    using pi bd by (auto simp: partition_inv_sel[of c])
  show "\<exists>b c'. insert_body ins c p = Inr (b, c')"
    using leaf bd by (cases p) (auto simp: insert_body_def)
qed

lemma insert_body_tot:
  assumes ok: "ins_ok ins" and tot: "ins_tot ins d"
  shows "ins_tot (insert_body ins) (d + 1)"
  unfolding ins_tot_def
proof (intro allI impI)
  fix c :: QuadtreeNode and p :: point
  assume pi: "partition_inv c" and bd: "max_depth c - depth c \<le> d + 1"
  show "\<exists>b c'. insert_body ins c p = Inr (b, c')"
  proof (cases "is_divided c")
    case dv: True
    have ci: "children_inv c"
      using pi dv by (simp add: children_inv_sel partition_inv_sel[of c])
    from insert_to_child_tot[OF tot ci bd, of p] show ?thesis
      using dv by (cases p) (auto simp: insert_body_def)
  next
    case leaf: False
    from subdivide_tot[OF ok tot pi leaf bd] obtain n1 where sd: "subdivide ins c = Inr n1"
      by blast
    note s = subdivide_ok[OF ok pi leaf sd]
    have "\<exists>b c'. insert_to_child ins n1 p = Inr (b, c')" if dv1: "is_divided n1"
    proof -
      have ci: "children_inv n1"
        using s dv1 by (simp add: children_inv_sel partition_inv_sel[of n1])
      have "max_depth n1 - depth n1 \<le> d + 1"
        using s bd by (simp add: frame_def)
      from insert_to_child_tot[OF tot ci this] show ?thesis .
    qed
    then show ?thesis
      using leaf sd by (cases p) (auto simp: insert_body_def)
  qed
qed

lemma insert_qt_tot: "ins_tot (insert_qt (Suc k)) (int k)"
proof (induction k)
  case 0
  have "insert_qt (Suc 0) = insert_body (insert_qt 0)" by (intro ext) simp
  then show ?case using insert_body_tot0[of "insert_qt 0"] by simp
next
  case (Suc k)
  have "ins_tot (insert_body (insert_qt (Suc k))) (int k + 1)"
    by (rule insert_body_tot[OF insert_qt_ok Suc])
  also have "insert_body (insert_qt (Suc k)) = insert_qt (Suc (Suc k))" by (intro ext) simp
  also have "int k + 1 = int (Suc k)" by simp
  finally show ?case .
qed

lemma ins_tot_mono: "ins_tot ins d \<Longrightarrow> d' \<le> d \<Longrightarrow> ins_tot ins d'"
  unfolding ins_tot_def by (meson order_trans)

lemma insert_qt_total:
  assumes pi: "partition_inv n" and fuel: "max_depth n - depth n < int L" "0 < L"
  shows "\<exists>n'. insert_qt L n p = Inr (contains n (px p) (py p), n')"
proof -
  from fuel obtain k where L: "L = Suc k" by (cases L) auto
  have "max_depth n - depth n \<le> int k" using fuel L by simp
  with insert_qt_tot[of k] pi obtain b n' where r: "insert_qt L n p = Inr (b, n')"
    unfolding ins_tot_def L by blast
  from insert_qt_ok[of L] pi r have "b \<longleftrightarrow> contains n (px p) (py p)"
    unfolding ins_ok_def by blast
  with r show ?thesis by auto
qed

section \<open>Queries, sequences of inserts and the depth\<close>

lemma prune_sound:
  "\<not> intersects n a b c d \<Longrightarrow> contains n (px p) (py p) \<Longrightarrow> \<not> in_box a b c d p"
  by (auto simp: intersects_def contains_def in_box_def)

lemma stored_in_region:
  "partition_inv n \<Longrightarrow> points_inv n \<Longrightarrow> p \<in># stored n \<Longrightarrow> contains n (px p) (py p)"
proof (induction n)
  case (QuadtreeNode xlo xhi ylo yhi cap dp md ps dv c1 c2 c3 c4)
  show ?case
  proof (cases dv)
    case False
    with QuadtreeNode.prems show ?thesis
      by (auto simp: contains_def list_all_iff)
  next
    case True
    with QuadtreeNode.prems obtain a1 a2 a3 a4 where
      c: "c1 = Some a1" "c2 = Some a2" "c3 = Some a3" "c4 = Some a4"
      by (auto split: option.splits)
    from QuadtreeNode.prems True c
    have "p \<in># stored a1 \<or> p \<in># stored a2 \<or> p \<in># stored a3 \<or> p \<in># stored a4"
      by auto
    moreover have "contains a (px p) (py p) \<Longrightarrow>
         contains (QuadtreeNode xlo xhi ylo yhi cap dp md ps dv c1 c2 c3 c4) (px p) (py p)"
      if "a \<in> {a1, a2, a3, a4}" for a
      using that QuadtreeNode.prems(1) True c
      by (auto simp: contains_def frame_def)
    moreover have "p \<in># stored a1 \<Longrightarrow> contains a1 (px p) (py p)"
      using QuadtreeNode.IH(1)[of a1] QuadtreeNode.prems True c by simp
    moreover have "p \<in># stored a2 \<Longrightarrow> contains a2 (px p) (py p)"
      using QuadtreeNode.IH(2)[of a2] QuadtreeNode.prems True c by simp
    moreover have "p \<in># stored a3 \<Longrightarrow> contains a3 (px p) (py p)"
      using QuadtreeNode.IH(3)[of a3] QuadtreeNode.prems True c by simp
    moreover have "p \<in># stored a4 \<Longrightarrow> contains a4 (px p) (py p)"
      using QuadtreeNode.IH(4)[of a4] QuadtreeNode.prems True c by simp
    ultimately show ?thesis by blast
  qed
qed


lemma filter_box_empty:
  assumes "\<not> intersects n a b c d" "\<And>p. p \<in># M \<Longrightarrow> contains n (px p) (py p)"
  shows "filter_mset (in_box a b c d) M = {#}"
  using assms prune_sound[of n a b c d]
  by (auto simp: filter_mset_eq_mempty_iff)

lemma query_own:
  "mset (map (\<lambda>p. fst (snd (snd p)))
          (filter (\<lambda>p. (a \<le> fst p \<and> fst p \<le> b) \<and> (c \<le> fst (snd p) \<and> fst (snd p) \<le> d)) ps)) =
   image_mset pidx (filter_mset (in_box a b c d) (mset ps))"
proof -
  have "(\<lambda>p. (a \<le> fst p \<and> fst p \<le> b) \<and> (c \<le> fst (snd p) \<and> fst (snd p) \<le> d)) = in_box a b c d"
    by (intro ext) (simp add: in_box_def px_def py_def)
  moreover have "(\<lambda>p::point. fst (snd (snd p))) = pidx"
    by (intro ext) (simp add: pidx_def)
  ultimately show ?thesis by (simp add: mset_filter)
qed

lemma query_range_ok:
  "partition_inv n \<Longrightarrow>
   \<exists>r. query_range n a b c d = Inr r \<and>
     (points_inv n \<longrightarrow> mset r = image_mset pidx (filter_mset (in_box a b c d) (stored n)))"
proof (induction n)
  case (QuadtreeNode xlo xhi ylo yhi cap dp md ps dv c1 c2 c3 c4)
  let ?n = "QuadtreeNode xlo xhi ylo yhi cap dp md ps dv c1 c2 c3 c4"
  show ?case
  proof (cases "intersects ?n a b c d")
    case False
    have "filter_mset (in_box a b c d) (stored ?n) = {#}" if "points_inv ?n"
      using filter_box_empty[OF False, of "stored ?n"]
        stored_in_region[OF QuadtreeNode.prems that] by blast
    moreover have "query_range ?n a b c d = Inr []"
      using False by simp
    ultimately show ?thesis by simp
  next
    case True
    show ?thesis
    proof (cases dv)
      case False
      have "query_range ?n a b c d = Inr (map (\<lambda>p. fst (snd (snd p)))
          (filter (\<lambda>p. (a \<le> fst p \<and> fst p \<le> b) \<and> (c \<le> fst (snd p) \<and> fst (snd p) \<le> d)) ps))"
        using True False by simp
      moreover have "stored ?n = mset ps" using False by simp
      ultimately show ?thesis using query_own[of a b c d ps] by (simp only:) blast
    next
      case dv: True
      with QuadtreeNode.prems obtain a1 a2 a3 a4 where
        c: "c1 = Some a1" "c2 = Some a2" "c3 = Some a3" "c4 = Some a4" and
        pi: "partition_inv a1" "partition_inv a2" "partition_inv a3" "partition_inv a4" and
        pe: "ps = []"
        by (auto split: option.splits)
      from QuadtreeNode.IH(1)[of a1] c pi obtain r1 where
        r1: "query_range a1 a b c d = Inr r1"
          "points_inv a1 \<longrightarrow> mset r1 = image_mset pidx (filter_mset (in_box a b c d) (stored a1))"
        by auto
      from QuadtreeNode.IH(2)[of a2] c pi obtain r2 where
        r2: "query_range a2 a b c d = Inr r2"
          "points_inv a2 \<longrightarrow> mset r2 = image_mset pidx (filter_mset (in_box a b c d) (stored a2))"
        by auto
      from QuadtreeNode.IH(3)[of a3] c pi obtain r3 where
        r3: "query_range a3 a b c d = Inr r3"
          "points_inv a3 \<longrightarrow> mset r3 = image_mset pidx (filter_mset (in_box a b c d) (stored a3))"
        by auto
      from QuadtreeNode.IH(4)[of a4] c pi obtain r4 where
        r4: "query_range a4 a b c d = Inr r4"
          "points_inv a4 \<longrightarrow> mset r4 = image_mset pidx (filter_mset (in_box a b c d) (stored a4))"
        by auto
      have q: "query_range ?n a b c d = Inr (r1 @ r2 @ r3 @ r4)"
        using True dv c pe r1(1) r2(1) r3(1) r4(1) by simp
      have "mset (r1 @ r2 @ r3 @ r4) = image_mset pidx (filter_mset (in_box a b c d) (stored ?n))"
        if "points_inv ?n"
      proof -
        from that dv c have "points_inv a1" "points_inv a2" "points_inv a3" "points_inv a4"
          by simp_all
        with r1(2) r2(2) r3(2) r4(2) show ?thesis
          using dv c pe by simp
      qed
      with q show ?thesis by simp
    qed
  qed
qed


lemma insert_seq_ok:
  "partition_inv n \<Longrightarrow> insert_seq L n ps = Inr (bs, n') \<Longrightarrow>
   partition_inv n' \<and> frame n' = frame n \<and> bs = map (\<lambda>p. contains n (px p) (py p)) ps \<and>
   (points_inv n \<longrightarrow> points_inv n' \<and>
      stored n' = stored n + mset (filter (\<lambda>p. contains n (px p) (py p)) ps))"
proof (induction ps arbitrary: n bs)
  case Nil
  then show ?case by simp
next
  case (Cons p ps)
  from Cons.prems(2) obtain b m bs' where
    st: "insert_qt L n p = Inr (b, m)" and rest: "insert_seq L m ps = Inr (bs', n')" and
    bs: "bs = b # bs'"
    by (auto split: sum.splits)
  note a = ins_okD[OF insert_qt_ok Cons.prems(1) st]
  note ih = Cons.IH[OF a(1) rest]
  have cf: "\<And>q. contains m (px q) (py q) = contains n (px q) (py q)"
    using a(2) by (simp add: contains_def frame_def)
  show ?case
  proof (intro conjI impI)
    show "partition_inv n'" using ih by simp
    show "frame n' = frame n" using ih a(2) by simp
    show "bs = map (\<lambda>p. contains n (px p) (py p)) (p # ps)"
      using ih a(3) bs by (simp add: cf)
  next
    assume pv: "points_inv n"
    from a(4)[OF pv] ih show "points_inv n'" by simp
    from a(4)[OF pv] a(5)[OF pv] a(3) ih
    show "stored n' = stored n + mset (filter (\<lambda>p. contains n (px p) (py p)) (p # ps))"
      by (simp add: cf)
  qed
qed

lemma insert_seq_total:
  "partition_inv n \<Longrightarrow> nat (max_depth n - depth n) < L \<Longrightarrow>
   \<exists>bs n'. insert_seq L n ps = Inr (bs, n')"
proof (induction ps arbitrary: n)
  case Nil
  then show ?case by simp
next
  case (Cons p ps)
  have fuel: "max_depth n - depth n < int L" "0 < L"
    using Cons.prems(2) by linarith+
  from insert_qt_total[OF Cons.prems(1) fuel, of p] obtain m where
    st: "insert_qt L n p = Inr (contains n (px p) (py p), m)" by blast
  note a = ins_okD[OF insert_qt_ok Cons.prems(1) st]
  have "nat (max_depth m - depth m) < L"
    using a(2) Cons.prems(2) by (simp add: frame_def)
  from Cons.IH[OF a(1) this] st show ?case by auto
qed

lemma successes_filter: "map fst (filter snd (zip ps (map f ps))) = filter f ps"
  by (induction ps) simp_all

lemma subnodes_partition_inv:
  "partition_inv n \<Longrightarrow> m \<in> set (subnodes n) \<Longrightarrow> partition_inv m"
proof (induction n)
  case (QuadtreeNode xlo xhi ylo yhi cap dp md ps dv c1 c2 c3 c4)
  show ?case
  proof (cases dv)
    case False
    with QuadtreeNode.prems show ?thesis by auto
  next
    case True
    with QuadtreeNode.prems(1) obtain a1 a2 a3 a4 where
      c: "c1 = Some a1" "c2 = Some a2" "c3 = Some a3" "c4 = Some a4" and
      pi: "partition_inv a1" "partition_inv a2" "partition_inv a3" "partition_inv a4"
      by (auto split: option.splits)
    from QuadtreeNode.prems(2) c
    consider "m = QuadtreeNode xlo xhi ylo yhi cap dp md ps dv c1 c2 c3 c4"
      | "m \<in> set (subnodes a1)" | "m \<in> set (subnodes a2)"
      | "m \<in> set (subnodes a3)" | "m \<in> set (subnodes a4)"
      by auto
    then show ?thesis
    proof cases
      case 1
      then show ?thesis using QuadtreeNode.prems(1) by simp
    next
      case 2
      then show ?thesis using QuadtreeNode.IH(1)[of a1] c pi by simp
    next
      case 3
      then show ?thesis using QuadtreeNode.IH(2)[of a2] c pi by simp
    next
      case 4
      then show ?thesis using QuadtreeNode.IH(3)[of a3] c pi by simp
    next
      case 5
      then show ?thesis using QuadtreeNode.IH(4)[of a4] c pi by simp
    qed
  qed
qed

lemma get_depth_recursive_bound:
  "partition_inv n \<Longrightarrow> get_depth_recursive (Some n) \<le> max 0 (max_depth n - depth n) + 1"
proof (induction n)
  case (QuadtreeNode xlo xhi ylo yhi cap dp md ps dv c1 c2 c3 c4)
  show ?case
  proof (cases dv)
    case False
    then show ?thesis by simp
  next
    case True
    with QuadtreeNode.prems(1) obtain a1 a2 a3 a4 where
      c: "c1 = Some a1" "c2 = Some a2" "c3 = Some a3" "c4 = Some a4" and
      pi: "partition_inv a1" "partition_inv a2" "partition_inv a3" "partition_inv a4" and
      f: "depth a1 = dp + 1" "depth a2 = dp + 1" "depth a3 = dp + 1" "depth a4 = dp + 1"
         "max_depth a1 = md" "max_depth a2 = md" "max_depth a3 = md" "max_depth a4 = md" and
      lt: "dp < md"
      by (auto simp: frame_def split: option.splits)
    have "get_depth_recursive (Some a1) \<le> md - dp"
      using QuadtreeNode.IH(1)[of a1] c pi f lt by simp
    moreover have "get_depth_recursive (Some a2) \<le> md - dp"
      using QuadtreeNode.IH(2)[of a2] c pi f lt by simp
    moreover have "get_depth_recursive (Some a3) \<le> md - dp"
      using QuadtreeNode.IH(3)[of a3] c pi f lt by simp
    moreover have "get_depth_recursive (Some a4) \<le> md - dp"
      using QuadtreeNode.IH(4)[of a4] c pi f lt by simp
    ultimately show ?thesis using True c lt by simp
  qed
qed

section \<open>The build\<close>

lemma build_tuples_simps [simp]:
  "build_tuples nd rs [] = []" "build_tuples nd [] idxs = []"
  "build_tuples nd ((x, y, row) # rs) (idx # idxs) =
     (x, y, idx, if nd > 2 then Some row else None) # build_tuples nd rs idxs"
  by (simp_all add: build_tuples_def)

lemma build_loop_length:
  "build_loop L nd n sz rs idxs = Inr (n', sz') \<Longrightarrow> length idxs \<le> length rs"
  by (induction L nd n sz rs idxs rule: build_loop.induct) (auto split: sum.splits)

lemma build_loop_insert_seq:
  "length idxs \<le> length rs \<Longrightarrow>
   build_loop L nd n sz rs idxs =
     (case insert_seq L n (build_tuples nd rs idxs) of
        Inl e \<Rightarrow> Inl e
      | Inr (bs, n') \<Rightarrow> Inr (n', sz + int (length idxs)))"
  by (induction L nd n sz rs idxs rule: build_loop.induct) (auto split: sum.splits)

lemma pidx_build_tuples:
  "length idxs \<le> length rs \<Longrightarrow> map pidx (build_tuples nd rs idxs) = idxs"
proof (induction rs arbitrary: idxs)
  case Nil
  then show ?case by simp
next
  case (Cons r rs)
  then show ?case by (cases idxs; cases r) (auto simp: pidx_def)
qed

lemma build_tuples_coords:
  "p \<in> set (build_tuples nd (zip xs (zip ys pts)) idxs) \<Longrightarrow> px p \<in> set xs \<and> py p \<in> set ys"
proof -
  assume "p \<in> set (build_tuples nd (zip xs (zip ys pts)) idxs)"
  then obtain x y row idx where p: "p = (x, y, idx, if nd > 2 then Some row else None)"
    and m: "((x, y, row), idx) \<in> set (zip (zip xs (zip ys pts)) idxs)"
    unfolding build_tuples_def by auto
  from m have "(x, y, row) \<in> set (zip xs (zip ys pts))" by (rule set_zip_leftD)
  then have "x \<in> set xs" "(y, row) \<in> set (zip ys pts)"
    by (auto dest: set_zip_leftD set_zip_rightD)
  then have "x \<in> set xs" "y \<in> set ys" by (auto dest: set_zip_leftD)
  then show ?thesis by (simp add: p px_def py_def)
qed

lemma column_rows_length: "column_rows rs d = Inr xs \<Longrightarrow> length xs = length rs"
  by (induction rs arbitrary: xs) (auto split: sum.splits)

lemma column_length: "column a d = Inr xs \<Longrightarrow> length xs = length (rows a)"
  by (auto simp: column_def Let_def column_rows_length split: if_splits)

lemma np_min_eq: "xs \<noteq> [] \<Longrightarrow> np_min xs = Inr (Min (set xs))"
  by (cases xs) (simp_all add: np_min_def Min.set_eq_fold[symmetric])

lemma np_max_eq: "xs \<noteq> [] \<Longrightarrow> np_max xs = Inr (Max (set xs))"
  by (cases xs) (simp_all add: np_max_def Max.set_eq_fold[symmetric])

lemma np_min_Inr: "np_min xs = Inr v \<Longrightarrow> xs \<noteq> []"
  by (cases xs) (simp_all add: np_min_def)

text \<open>What a build that returns has done: the root it made, the tuples it inserted, and
  the tree and size it left.\<close>

lemma build_Inr:
  assumes b: "build L q a ix = Inr q'"
  defines "idxs \<equiv> (case ix of None \<Rightarrow> map int [0..<length (rows a)] | Some is \<Rightarrow> is)"
  shows "\<exists>xs ys bs root.
      column a (qt_x_dim q) = Inr xs \<and> column a (qt_y_dim q) = Inr ys \<and> rows a \<noteq> [] \<and>
      length idxs \<le> length (rows a) \<and>
      insert_seq L
        (QuadtreeNode_init
           (Min (set xs) - (Max (set xs) - Min (set xs)) * 0.01)
           (Max (set xs) + (Max (set xs) - Min (set xs)) * 0.01)
           (Min (set ys) - (Max (set ys) - Min (set ys)) * 0.01)
           (Max (set ys) + (Max (set ys) - Min (set ys)) * 0.01)
           (qt_capacity q) 0 (qt_max_depth q))
        (build_tuples (shape1 a) (zip xs (zip ys (rows a))) idxs) = Inr (bs, root) \<and>
      q' = q\<lparr>qt_root := Some root, qt_size := qt_size q + int (length idxs)\<rparr>"
proof -
  from b obtain xs ys where cx: "column a (qt_x_dim q) = Inr xs"
    and cy: "column a (qt_y_dim q) = Inr ys"
    unfolding build_def Let_def by (auto split: sum.splits)
  from b cx cy obtain v where "np_min xs = Inr v"
    unfolding build_def Let_def by (auto split: sum.splits)
  then have nx: "xs \<noteq> []" by (rule np_min_Inr)
  have lx: "length xs = length (rows a)" and ly: "length ys = length (rows a)"
    using cx cy by (simp_all add: column_length)
  have ny: "ys \<noteq> []" and ne: "rows a \<noteq> []" using nx lx ly by auto
  let ?n0 = "QuadtreeNode_init
      (Min (set xs) - (Max (set xs) - Min (set xs)) * 0.01)
      (Max (set xs) + (Max (set xs) - Min (set xs)) * 0.01)
      (Min (set ys) - (Max (set ys) - Min (set ys)) * 0.01)
      (Max (set ys) + (Max (set ys) - Min (set ys)) * 0.01)
      (qt_capacity q) 0 (qt_max_depth q)"
  let ?rs = "zip xs (zip ys (rows a))"
  from b obtain root sz where
    bl: "build_loop L (shape1 a) ?n0 (qt_size q) ?rs idxs = Inr (root, sz)" and
    q': "q' = q\<lparr>qt_root := Some root, qt_size := sz\<rparr>"
    unfolding build_def Let_def idxs_def
    using cx cy np_min_eq[OF nx] np_max_eq[OF nx] np_min_eq[OF ny] np_max_eq[OF ny]
    by (auto split: sum.splits)
  have len: "length idxs \<le> length ?rs" using build_loop_length[OF bl] .
  from build_loop_insert_seq[OF len, of L "shape1 a" ?n0 "qt_size q"] bl
  obtain bs where sq: "insert_seq L ?n0 (build_tuples (shape1 a) ?rs idxs) = Inr (bs, root)"
    and sz: "sz = qt_size q + int (length idxs)"
    by (auto split: sum.splits)
  from len lx ly have "length idxs \<le> length (rows a)" by simp
  with cx cy ne sq q' sz show ?thesis by blast
qed

text \<open>The padded bounding box holds every projected point.\<close>

lemma padded_box_contains:
  assumes "x \<in> set xs" "y \<in> set ys"
  shows "contains (QuadtreeNode_init
           (Min (set xs) - (Max (set xs) - Min (set xs)) * 0.01)
           (Max (set xs) + (Max (set xs) - Min (set xs)) * 0.01)
           (Min (set ys) - (Max (set ys) - Min (set ys)) * 0.01)
           (Max (set ys) + (Max (set ys) - Min (set ys)) * 0.01) cap d md) x y"
proof -
  have "Min (set xs) \<le> x" "x \<le> Max (set xs)" "Min (set ys) \<le> y" "y \<le> Max (set ys)"
    using assms by simp_all
  then show ?thesis unfolding contains_def QuadtreeNode_init_def
    by (simp del: divide_le_eq_numeral1 le_divide_eq_numeral1) argo
qed

lemma build_total:
  assumes cx: "column a (qt_x_dim q) = Inr xs" and cy: "column a (qt_y_dim q) = Inr ys"
    and ne: "rows a \<noteq> []"
    and len: "length (case ix of None \<Rightarrow> map int [0..<length (rows a)] | Some is \<Rightarrow> is)
                \<le> length (rows a)"
    and fuel: "nat (qt_max_depth q) < L"
  shows "\<exists>q'. build L q a ix = Inr q'"
proof -
  define idxs where "idxs = (case ix of None \<Rightarrow> map int [0..<length (rows a)] | Some is \<Rightarrow> is)"
  let ?n0 = "QuadtreeNode_init
      (Min (set xs) - (Max (set xs) - Min (set xs)) * 0.01)
      (Max (set xs) + (Max (set xs) - Min (set xs)) * 0.01)
      (Min (set ys) - (Max (set ys) - Min (set ys)) * 0.01)
      (Max (set ys) + (Max (set ys) - Min (set ys)) * 0.01)
      (qt_capacity q) 0 (qt_max_depth q)"
  let ?rs = "zip xs (zip ys (rows a))"
  have lx: "length xs = length (rows a)" and ly: "length ys = length (rows a)"
    using cx cy by (simp_all add: column_length)
  have nx: "xs \<noteq> []" and ny: "ys \<noteq> []" using lx ly ne by auto
  have lr: "length idxs \<le> length ?rs" using len lx ly by (simp add: idxs_def)
  have fl: "nat (max_depth ?n0 - depth ?n0) < L"
    using fuel by (simp add: QuadtreeNode_init_def)
  from insert_seq_total[OF partition_inv_init fl, of "build_tuples (shape1 a) ?rs idxs"]
  obtain bs r where sq: "insert_seq L ?n0 (build_tuples (shape1 a) ?rs idxs) = Inr (bs, r)"
    by blast
  have bl: "build_loop L (shape1 a) ?n0 (qt_size q) ?rs idxs =
              Inr (r, qt_size q + int (length idxs))"
    using build_loop_insert_seq[OF lr, of L "shape1 a" ?n0 "qt_size q"] sq by simp
  have "build L q a ix =
          Inr (q\<lparr>qt_root := Some r, qt_size := qt_size q + int (length idxs)\<rparr>)"
    unfolding build_def Let_def
    using cx cy np_min_eq[OF nx] np_max_eq[OF nx] np_min_eq[OF ny] np_max_eq[OF ny] bl
    by (simp add: idxs_def)
  then show ?thesis by blast
qed

text \<open>For intervals that are not empty, the test of \<^verbatim>\<open>intersects\<close> is that the two
  rectangles share a point.\<close>

lemma intersects_nonempty:
  assumes "x_min n \<le> x_max n" "y_min n \<le> y_max n" "qx_min \<le> qx_max" "qy_min \<le> qy_max"
  shows "intersects n qx_min qx_max qy_min qy_max \<longleftrightarrow>
           region n \<inter> ({qx_min..qx_max} \<times> {qy_min..qy_max}) \<noteq> {}"
proof
  assume i: "intersects n qx_min qx_max qy_min qy_max"
  have "(max (x_min n) qx_min, max (y_min n) qy_min)
          \<in> region n \<inter> ({qx_min..qx_max} \<times> {qy_min..qy_max})"
    using i assms by (auto simp: intersects_def region_def contains_def)
  then show "region n \<inter> ({qx_min..qx_max} \<times> {qy_min..qy_max}) \<noteq> {}" by blast
next
  assume "region n \<inter> ({qx_min..qx_max} \<times> {qy_min..qy_max}) \<noteq> {}"
  then show "intersects n qx_min qx_max qy_min qy_max"
    by (auto simp: intersects_def region_def contains_def)
qed

section \<open>Reachable nodes\<close>

lemma reachable_inv: "reachable n \<Longrightarrow> partition_inv n \<and> points_inv n"
proof (induction rule: reachable.induct)
  case (fresh xlo xhi ylo yhi cap d md)
  show ?case by simp
next
  case (built L q a ix q' r)
  from build_Inr[OF built(1)] built(2) obtain n0ps bs x0 x1 y0 y1 where
    "insert_seq L (QuadtreeNode_init x0 x1 y0 y1 (qt_capacity q) 0 (qt_max_depth q)) n0ps
       = Inr (bs, r)"
    by auto
  from insert_seq_ok[OF partition_inv_init this] show ?case by simp
next
  case (inserted n L p b n')
  from ins_okD[OF insert_qt_ok _ inserted(2)] inserted(3) show ?case by blast
qed

lemma reachable_insert_seq:
  "reachable n \<Longrightarrow> insert_seq L n ps = Inr (bs, n') \<Longrightarrow> reachable n'"
proof (induction ps arbitrary: n bs)
  case Nil
  then show ?case by simp
next
  case (Cons p ps)
  from Cons.prems(2) obtain b m bs' where
    st: "insert_qt L n p = Inr (b, m)" and rest: "insert_seq L m ps = Inr (bs', n')"
    by (auto split: sum.splits)
  from Cons.IH[OF reachable.inserted[OF Cons.prems(1) st] rest] show ?case .
qed

section \<open>Facts for the properties\<close>

lemma two_coincident_run:
  "insert_seq 2 (QuadtreeNode_init 0 1 0 1 1 0 1)
     [(1 / 2, 1 / 2, 0, None), (1 / 2, 1 / 2, 1, None)] = Inr ([True, True], tree_two_coincident)"
  by code_simp

lemma subnodes_self: "n \<in> set (subnodes n)"
  by (cases n) simp

lemma quadrant_regions:
  assumes "(x_min a1, x_max a1, y_min a1, y_max a1) =
             (x_min m, (x_min m + x_max m) / 2, (y_min m + y_max m) / 2, y_max m)"
    and "(x_min a2, x_max a2, y_min a2, y_max a2) =
             ((x_min m + x_max m) / 2, x_max m, (y_min m + y_max m) / 2, y_max m)"
    and "(x_min a3, x_max a3, y_min a3, y_max a3) =
             (x_min m, (x_min m + x_max m) / 2, y_min m, (y_min m + y_max m) / 2)"
    and "(x_min a4, x_max a4, y_min a4, y_max a4) =
             ((x_min m + x_max m) / 2, x_max m, y_min m, (y_min m + y_max m) / 2)"
  shows "region a1 \<union> region a2 \<union> region a3 \<union> region a4 = region m"
    and "region a1 \<inter> region a2 \<subseteq> {(x, y). x = (x_min m + x_max m) / 2}"
    and "region a3 \<inter> region a4 \<subseteq> {(x, y). x = (x_min m + x_max m) / 2}"
    and "region a1 \<inter> region a3 \<subseteq> {(x, y). y = (y_min m + y_max m) / 2}"
    and "region a2 \<inter> region a4 \<subseteq> {(x, y). y = (y_min m + y_max m) / 2}"
    and "region a1 \<inter> region a4 \<subseteq> {((x_min m + x_max m) / 2, (y_min m + y_max m) / 2)}"
    and "region a2 \<inter> region a3 \<subseteq> {((x_min m + x_max m) / 2, (y_min m + y_max m) / 2)}"
  using assms unfolding region_def contains_def by (auto simp: field_simps)

lemma four_inserts_run:
  "insert_seq 3 (QuadtreeNode_init 0 1 0 1 1 0 2)
     [(1 / 4, 1 / 4, 10, None), (3 / 4, 3 / 4, 11, None), (2, 2, 12, None),
      (1 / 2, 1 / 2, 13, None)] = Inr ([True, True, False, True], tree_four_inserts)"
  by code_simp

lemma successes_set:
  "set (map fst (filter snd (zip ps bs))) = {p. (p, True) \<in> set (zip ps bs)}"
  by force

lemma returnsE: "(case x of Inl e \<Rightarrow> False | Inr y \<Rightarrow> P y) \<Longrightarrow> \<exists>y. x = Inr y \<and> P y"
  by (cases x) auto

lemma build_root_frame:
  assumes "build L q a ix = Inr q'"
  shows "\<exists>r. qt_root q' = Some r \<and> reachable r \<and> depth r = 0 \<and>
           max_depth r = qt_max_depth q \<and> capacity r = qt_capacity q \<and>
           qt_max_depth q' = qt_max_depth q \<and> qt_capacity q' = qt_capacity q"
proof -
  from build_Inr[OF assms] obtain n0ps bs x0 x1 y0 y1 r where
    s: "insert_seq L (QuadtreeNode_init x0 x1 y0 y1 (qt_capacity q) 0 (qt_max_depth q)) n0ps
       = Inr (bs, r)" and q': "qt_root q' = Some r" "qt_max_depth q' = qt_max_depth q"
      "qt_capacity q' = qt_capacity q"
    by auto
  from insert_seq_ok[OF partition_inv_init s]
  have "frame r = frame (QuadtreeNode_init x0 x1 y0 y1 (qt_capacity q) 0 (qt_max_depth q))"
    by simp
  then have "depth r = 0" "max_depth r = qt_max_depth q" "capacity r = qt_capacity q"
    by (simp_all add: frame_def QuadtreeNode_init_def)
  with q' reachable.built[OF assms q'(1)] show ?thesis by simp
qed

lemma build_result:
  assumes b: "build L q a ix = Inr q'"
  defines "idxs \<equiv> (case ix of None \<Rightarrow> map int [0..<length (rows a)] | Some is \<Rightarrow> is)"
  shows "\<exists>xs ys root.
      column a (qt_x_dim q) = Inr xs \<and> column a (qt_y_dim q) = Inr ys \<and> rows a \<noteq> [] \<and>
      length idxs \<le> length (rows a) \<and>
      q' = q\<lparr>qt_root := Some root, qt_size := qt_size q + int (length idxs)\<rparr> \<and>
      frame root =
        (Min (set xs) - (Max (set xs) - Min (set xs)) * 0.01,
         Max (set xs) + (Max (set xs) - Min (set xs)) * 0.01,
         Min (set ys) - (Max (set ys) - Min (set ys)) * 0.01,
         Max (set ys) + (Max (set ys) - Min (set ys)) * 0.01,
         qt_capacity q, 0, qt_max_depth q) \<and>
      partition_inv root \<and> points_inv root \<and>
      stored root = mset (build_tuples (shape1 a) (zip xs (zip ys (rows a))) idxs) \<and>
      (\<forall>x \<in> set xs. \<forall>y \<in> set ys. contains root x y)"
proof -
  let ?n0 = "\<lambda>xs ys. QuadtreeNode_init
      (Min (set xs) - (Max (set xs) - Min (set xs)) * 0.01)
      (Max (set xs) + (Max (set xs) - Min (set xs)) * 0.01)
      (Min (set ys) - (Max (set ys) - Min (set ys)) * 0.01)
      (Max (set ys) + (Max (set ys) - Min (set ys)) * 0.01)
      (qt_capacity q) 0 (qt_max_depth q)"
  from build_Inr[OF b] obtain xs ys bs root where
    cx: "column a (qt_x_dim q) = Inr xs" and cy: "column a (qt_y_dim q) = Inr ys" and
    ne: "rows a \<noteq> []" and len: "length idxs \<le> length (rows a)" and
    sq: "insert_seq L (?n0 xs ys)
           (build_tuples (shape1 a) (zip xs (zip ys (rows a))) idxs) = Inr (bs, root)" and
    q': "q' = q\<lparr>qt_root := Some root, qt_size := qt_size q + int (length idxs)\<rparr>"
    unfolding idxs_def by blast
  let ?ts = "build_tuples (shape1 a) (zip xs (zip ys (rows a))) idxs"
  note s = insert_seq_ok[OF partition_inv_init sq]
  have fr: "frame root = frame (?n0 xs ys)" using s by simp
  have c0: "contains (?n0 xs ys) x y" if "x \<in> set xs" "y \<in> set ys" for x y
    using that by (rule padded_box_contains)
  have cr: "contains root x y" if "x \<in> set xs" "y \<in> set ys" for x y
    using c0[OF that] fr by (simp add: contains_def frame_def)
  have flt: "filter (\<lambda>p. contains (?n0 xs ys) (px p) (py p)) ?ts = ?ts"
    using c0 build_tuples_coords[of _ "shape1 a" xs ys "rows a" idxs]
    by (simp add: filter_id_conv)
  from s points_inv_init
  have "stored root = stored (?n0 xs ys) +
          mset (filter (\<lambda>p. contains (?n0 xs ys) (px p) (py p)) ?ts)"
    by blast
  then have st: "stored root = mset ?ts" unfolding flt by simp
  have pr: "partition_inv root" "points_inv root" using s by simp_all
  have fr': "frame root =
        (Min (set xs) - (Max (set xs) - Min (set xs)) * 0.01,
         Max (set xs) + (Max (set xs) - Min (set xs)) * 0.01,
         Min (set ys) - (Max (set ys) - Min (set ys)) * 0.01,
         Max (set ys) + (Max (set ys) - Min (set ys)) * 0.01,
         qt_capacity q, 0, qt_max_depth q)"
    unfolding fr by simp
  from cx cy ne len q' fr' pr st cr show ?thesis by blast
qed

lemma full_box_filter:
  assumes "partition_inv n" "points_inv n"
  shows "filter_mset (in_box (x_min n) (x_max n) (y_min n) (y_max n)) (stored n) = stored n"
proof -
  have "in_box (x_min n) (x_max n) (y_min n) (y_max n) p" if "p \<in># stored n" for p
    using stored_in_region[OF assms that] by (simp add: in_box_def contains_def)
  then show ?thesis by (simp add: filter_mset_eq_conv)
qed

lemma all_same_prefix:
  assumes "\<forall>p \<in> set (qs @ ps). \<bar>px p - px (hd (qs @ ps))\<bar> < 1 / 10 ^ 10 \<and>
                               \<bar>py p - py (hd (qs @ ps))\<bar> < 1 / 10 ^ 10"
  shows "all_same qs"
proof (cases qs)
  case Nil
  then show ?thesis by (simp add: all_same_def)
next
  case (Cons q qs')
  then show ?thesis
    using assms by (auto simp: all_same_def list_all_iff px_def py_def)
qed

lemma insert_coincident_leaf:
  assumes leaf: "\<not> is_divided n" "nw n = None" "ne n = None" "sw n = None" "se n = None"
    and cap: "2 \<le> capacity n"
    and same: "all_same (points n)" and c: "contains n (px p) (py p)"
  shows "insert_qt (Suc k) n p = Inr (True, set_points (points n @ [p]) n)"
proof -
  have sd: "subdivide (insert_qt k) n = Inr n"
    if "\<not> int (length (points n)) < capacity n" "\<not> depth n \<ge> max_depth n"
    using that cap same by (auto simp: subdivide_def)
  show ?thesis
    using c leaf(1) sd
    by (cases p) (auto simp: insert_body_def px_def py_def)
qed

lemma insert_seq_coincident:
  "\<not> is_divided n \<Longrightarrow> nw n = None \<Longrightarrow> ne n = None \<Longrightarrow> sw n = None \<Longrightarrow> se n = None \<Longrightarrow>
   2 \<le> capacity n \<Longrightarrow> \<forall>p \<in> set ps. contains n (px p) (py p) \<Longrightarrow>
   \<forall>p \<in> set (points n @ ps). \<bar>px p - px (hd (points n @ ps))\<bar> < 1 / 10 ^ 10 \<and>
                                \<bar>py p - py (hd (points n @ ps))\<bar> < 1 / 10 ^ 10 \<Longrightarrow>
   insert_seq (Suc k) n ps = Inr (replicate (length ps) True, set_points (points n @ ps) n)"
proof (induction ps arbitrary: n)
  case Nil
  then show ?case by (cases n) (simp add: set_points_def)
next
  case (Cons p ps)
  let ?m = "set_points (points n @ [p]) n"
  have same: "all_same (points n)"
    using all_same_prefix[of "points n" "p # ps"] Cons.prems(8) by blast
  have st: "insert_qt (Suc k) n p = Inr (True, ?m)"
    using insert_coincident_leaf[OF Cons.prems(1-6) same] Cons.prems(7) by simp
  have cm: "\<forall>q \<in> set ps. contains ?m (px q) (py q)"
    using Cons.prems(7) by simp
  have sm: "\<forall>q \<in> set (points ?m @ ps). \<bar>px q - px (hd (points ?m @ ps))\<bar> < 1 / 10 ^ 10 \<and>
                                \<bar>py q - py (hd (points ?m @ ps))\<bar> < 1 / 10 ^ 10"
    using Cons.prems(8) by simp
  have "insert_seq (Suc k) ?m ps =
          Inr (replicate (length ps) True, set_points (points ?m @ ps) ?m)"
    using Cons.prems(1-6) by (intro Cons.IH cm sm) simp_all
  moreover have "set_points (points ?m @ ps) ?m = set_points (points n @ p # ps) n"
    by (simp add: set_points_def)
  ultimately show ?case using st by simp
qed

section \<open>Nested calls\<close>

lemma bounds_set [simp]:
  "bounds (set_points ps n) = bounds n" "bounds (set_nw c n) = bounds n"
  "bounds (set_ne c n) = bounds n" "bounds (set_sw c n) = bounds n" "bounds (set_se c n) = bounds n"
  by (simp_all add: bounds_def)

lemma contains_bounds: "bounds a = bounds b \<Longrightarrow> contains a x y = contains b x y"
  by (simp add: bounds_def contains_def)

lemma nesting_sel:
  "nesting n =
     (if is_divided n then
        1 + max (max (case nw n of None \<Rightarrow> 0 | Some a \<Rightarrow> nesting a)
                     (case ne n of None \<Rightarrow> 0 | Some a \<Rightarrow> nesting a))
                (max (case sw n of None \<Rightarrow> 0 | Some a \<Rightarrow> nesting a)
                     (case se n of None \<Rightarrow> 0 | Some a \<Rightarrow> nesting a))
      else 1 + nat (max_depth n - depth n))"
  by (cases n) simp

lemma nesting_pos: "0 < nesting n"
  by (simp add: nesting_sel[of n])

lemma covered_sel:
  "covered n \<longleftrightarrow>
     (is_divided n \<longrightarrow>
        (\<exists>a1 a2 a3 a4. nw n = Some a1 \<and> ne n = Some a2 \<and> sw n = Some a3 \<and> se n = Some a4 \<and>
           bounds a1 = (x_min n, (x_min n + x_max n) / 2, (y_min n + y_max n) / 2, y_max n) \<and>
           bounds a2 = ((x_min n + x_max n) / 2, x_max n, (y_min n + y_max n) / 2, y_max n) \<and>
           bounds a3 = (x_min n, (x_min n + x_max n) / 2, y_min n, (y_min n + y_max n) / 2) \<and>
           bounds a4 = ((x_min n + x_max n) / 2, x_max n, y_min n, (y_min n + y_max n) / 2) \<and>
           covered a1 \<and> covered a2 \<and> covered a3 \<and> covered a4))"
  by (cases n) (auto split: option.splits)

lemma quadrant_cover_bounds:
  assumes "bounds a1 = (x_min n, (x_min n + x_max n) / 2, (y_min n + y_max n) / 2, y_max n)"
    and "bounds a2 = ((x_min n + x_max n) / 2, x_max n, (y_min n + y_max n) / 2, y_max n)"
    and "bounds a3 = (x_min n, (x_min n + x_max n) / 2, y_min n, (y_min n + y_max n) / 2)"
    and "bounds a4 = ((x_min n + x_max n) / 2, x_max n, y_min n, (y_min n + y_max n) / 2)"
  shows "contains n x y \<longleftrightarrow>
           contains a1 x y \<or> contains a2 x y \<or> contains a3 x y \<or> contains a4 x y"
  using assms unfolding bounds_def contains_def by (auto simp: field_simps)

lemma partition_inv_covered: "partition_inv n \<Longrightarrow> covered n"
proof (induction n)
  case (QuadtreeNode xlo xhi ylo yhi cap dp md ps dv c1 c2 c3 c4)
  show ?case
  proof (cases dv)
    case False
    then show ?thesis by simp
  next
    case True
    with QuadtreeNode.prems obtain a1 a2 a3 a4 where
      c: "c1 = Some a1" "c2 = Some a2" "c3 = Some a3" "c4 = Some a4"
      by (auto split: option.splits)
    have "covered a1" "covered a2" "covered a3" "covered a4"
      using QuadtreeNode.IH(1)[of a1] QuadtreeNode.IH(2)[of a2] QuadtreeNode.IH(3)[of a3]
        QuadtreeNode.IH(4)[of a4] QuadtreeNode.prems True c by simp_all
    then show ?thesis
      using QuadtreeNode.prems True c by (simp add: frame_def bounds_def)
  qed
qed

lemma partition_inv_nesting:
  "partition_inv n \<Longrightarrow> nesting n \<le> 1 + nat (max_depth n - depth n)"
proof (induction n)
  case (QuadtreeNode xlo xhi ylo yhi cap dp md ps dv c1 c2 c3 c4)
  show ?case
  proof (cases dv)
    case False
    then show ?thesis by simp
  next
    case True
    with QuadtreeNode.prems obtain a1 a2 a3 a4 where
      c: "c1 = Some a1" "c2 = Some a2" "c3 = Some a3" "c4 = Some a4" and
      pi: "partition_inv a1" "partition_inv a2" "partition_inv a3" "partition_inv a4" and
      f: "depth a1 = dp + 1" "depth a2 = dp + 1" "depth a3 = dp + 1" "depth a4 = dp + 1"
         "max_depth a1 = md" "max_depth a2 = md" "max_depth a3 = md" "max_depth a4 = md" and
      lt: "dp < md"
      by (auto simp: frame_def split: option.splits)
    have "nesting a1 \<le> nat (md - dp)" "nesting a2 \<le> nat (md - dp)"
      "nesting a3 \<le> nat (md - dp)" "nesting a4 \<le> nat (md - dp)"
      using QuadtreeNode.IH(1)[of a1] QuadtreeNode.IH(2)[of a2] QuadtreeNode.IH(3)[of a3]
        QuadtreeNode.IH(4)[of a4] c pi f lt by simp_all
    then show ?thesis using True c by simp
  qed
qed

lemma insert_to_child_cov:
  assumes cov: "ins_cov ins k" and dv: "is_divided n" and cn: "covered n"
    and nn: "nesting n \<le> Suc k"
  shows "\<exists>n'. insert_to_child ins n p = Inr (contains n (px p) (py p), n') \<and>
           is_divided n' \<and> covered n' \<and> bounds n' = bounds n \<and> nesting n' \<le> nesting n \<and>
           points n' = points n \<and> depth n' = depth n \<and> max_depth n' = max_depth n"
proof -
  from cn dv obtain a1 a2 a3 a4 where
    ch: "nw n = Some a1" "ne n = Some a2" "sw n = Some a3" "se n = Some a4" and
    b: "bounds a1 = (x_min n, (x_min n + x_max n) / 2, (y_min n + y_max n) / 2, y_max n)"
       "bounds a2 = ((x_min n + x_max n) / 2, x_max n, (y_min n + y_max n) / 2, y_max n)"
       "bounds a3 = (x_min n, (x_min n + x_max n) / 2, y_min n, (y_min n + y_max n) / 2)"
       "bounds a4 = ((x_min n + x_max n) / 2, x_max n, y_min n, (y_min n + y_max n) / 2)" and
    ca: "covered a1" "covered a2" "covered a3" "covered a4"
    unfolding covered_sel[of n] by blast
  have na: "nesting a1 \<le> k" "nesting a2 \<le> k" "nesting a3 \<le> k" "nesting a4 \<le> k"
    using nn dv ch by (simp_all add: nesting_sel[of n])
  note cv = quadrant_cover_bounds[OF b, of "px p" "py p"]
  have call: "\<exists>c'. ins a p = Inr (True, c') \<and> covered c' \<and> bounds c' = bounds a \<and>
                 nesting c' \<le> nesting a"
    if "covered a" "nesting a \<le> k" "contains a (px p) (py p)" for a
    using cov[unfolded ins_cov_def, rule_format, OF that(1,2), of p] that(3) by simp
  have ip: "insert_to_child ins n p =
     (if contains a1 (px p) (py p) then
        (case ins a1 p of Inl e \<Rightarrow> Inl e | Inr (b, c') \<Rightarrow> Inr (b, set_nw (Some c') n))
      else if contains a2 (px p) (py p) then
        (case ins a2 p of Inl e \<Rightarrow> Inl e | Inr (b, c') \<Rightarrow> Inr (b, set_ne (Some c') n))
      else if contains a3 (px p) (py p) then
        (case ins a3 p of Inl e \<Rightarrow> Inl e | Inr (b, c') \<Rightarrow> Inr (b, set_sw (Some c') n))
      else if contains a4 (px p) (py p) then
        (case ins a4 p of Inl e \<Rightarrow> Inl e | Inr (b, c') \<Rightarrow> Inr (b, set_se (Some c') n))
      else Inr (False, n))"
    by (cases p) (simp add: insert_to_child_def ch px_def py_def)
  consider (c1) "contains a1 (px p) (py p)"
    | (c2) "\<not> contains a1 (px p) (py p)" "contains a2 (px p) (py p)"
    | (c3) "\<not> contains a1 (px p) (py p)" "\<not> contains a2 (px p) (py p)"
           "contains a3 (px p) (py p)"
    | (c4) "\<not> contains a1 (px p) (py p)" "\<not> contains a2 (px p) (py p)"
           "\<not> contains a3 (px p) (py p)" "contains a4 (px p) (py p)"
    | (c0) "\<not> contains a1 (px p) (py p)" "\<not> contains a2 (px p) (py p)"
           "\<not> contains a3 (px p) (py p)" "\<not> contains a4 (px p) (py p)"
    by blast
  then show ?thesis
  proof cases
    case c1
    from call[OF ca(1) na(1) c1] obtain c' where
      r: "ins a1 p = Inr (True, c')" "covered c'" "bounds c' = bounds a1" "nesting c' \<le> nesting a1"
      by blast
    have "nesting (set_nw (Some c') n) \<le> nesting n"
      using r(4) dv ch
      by (auto simp: nesting_sel[of n] nesting_sel[of "set_nw (Some c') n"] le_max_iff_disj)
    moreover have "covered (set_nw (Some c') n)"
      using r(2,3) dv ch b ca
      by (simp add: covered_sel[of "set_nw (Some c') n"])
    ultimately show ?thesis
      using c1 r(1) cv dv by (intro exI[of _ "set_nw (Some c') n"]) (simp add: ip)
  next
    case c2
    from call[OF ca(2) na(2) c2(2)] obtain c' where
      r: "ins a2 p = Inr (True, c')" "covered c'" "bounds c' = bounds a2" "nesting c' \<le> nesting a2"
      by blast
    have "nesting (set_ne (Some c') n) \<le> nesting n"
      using r(4) dv ch
      by (auto simp: nesting_sel[of n] nesting_sel[of "set_ne (Some c') n"] le_max_iff_disj)
    moreover have "covered (set_ne (Some c') n)"
      using r(2,3) dv ch b ca
      by (simp add: covered_sel[of "set_ne (Some c') n"])
    ultimately show ?thesis
      using c2 r(1) cv dv by (intro exI[of _ "set_ne (Some c') n"]) (simp add: ip)
  next
    case c3
    from call[OF ca(3) na(3) c3(3)] obtain c' where
      r: "ins a3 p = Inr (True, c')" "covered c'" "bounds c' = bounds a3" "nesting c' \<le> nesting a3"
      by blast
    have "nesting (set_sw (Some c') n) \<le> nesting n"
      using r(4) dv ch
      by (auto simp: nesting_sel[of n] nesting_sel[of "set_sw (Some c') n"] le_max_iff_disj)
    moreover have "covered (set_sw (Some c') n)"
      using r(2,3) dv ch b ca
      by (simp add: covered_sel[of "set_sw (Some c') n"])
    ultimately show ?thesis
      using c3 r(1) cv dv by (intro exI[of _ "set_sw (Some c') n"]) (simp add: ip)
  next
    case c4
    from call[OF ca(4) na(4) c4(4)] obtain c' where
      r: "ins a4 p = Inr (True, c')" "covered c'" "bounds c' = bounds a4" "nesting c' \<le> nesting a4"
      by blast
    have "nesting (set_se (Some c') n) \<le> nesting n"
      using r(4) dv ch
      by (auto simp: nesting_sel[of n] nesting_sel[of "set_se (Some c') n"] le_max_iff_disj)
    moreover have "covered (set_se (Some c') n)"
      using r(2,3) dv ch b ca
      by (simp add: covered_sel[of "set_se (Some c') n"])
    ultimately show ?thesis
      using c4 r(1) cv dv by (intro exI[of _ "set_se (Some c') n"]) (simp add: ip)
  next
    case c0
    then show ?thesis
      using cv dv cn by (intro exI[of _ n]) (simp add: ip)
  qed
qed


lemma redistribute_cov:
  assumes cov: "ins_cov ins k"
  shows "is_divided n \<Longrightarrow> covered n \<Longrightarrow> nesting n \<le> Suc k \<Longrightarrow>
         \<exists>n'. redistribute ins n ps = Inr n' \<and>
           is_divided n' \<and> covered n' \<and> bounds n' = bounds n \<and> nesting n' \<le> nesting n \<and>
           points n' = points n \<and> depth n' = depth n \<and> max_depth n' = max_depth n"
proof (induction ps arbitrary: n)
  case Nil
  then show ?case by simp
next
  case (Cons p ps)
  from insert_to_child_cov[OF cov Cons.prems, of p] obtain m where
    st: "insert_to_child ins n p = Inr (contains n (px p) (py p), m)" and
    m: "is_divided m" "covered m" "bounds m = bounds n" "nesting m \<le> nesting n"
       "points m = points n" "depth m = depth n" "max_depth m = max_depth n"
    by blast
  have "nesting m \<le> Suc k" using m(4) Cons.prems(3) by simp
  from Cons.IH[OF m(1,2) this] obtain n' where
    "redistribute ins m ps = Inr n'" "is_divided n'" "covered n'" "bounds n' = bounds m"
    "nesting n' \<le> nesting m" "points n' = points m" "depth n' = depth m"
    "max_depth n' = max_depth m"
    by blast
  with st m show ?case by (intro exI[of _ n']) simp
qed

lemma subdivide_cov:
  assumes cov: "ins_cov ins k" and leaf: "\<not> is_divided n" and nn: "nesting n \<le> Suc k"
  shows "\<exists>n1. subdivide ins n = Inr n1 \<and> covered n1 \<and> bounds n1 = bounds n \<and>
           nesting n1 \<le> nesting n \<and> (\<not> is_divided n1 \<longrightarrow> n1 = n)"
proof (cases "depth n \<ge> max_depth n \<or> (length (points n) > 1 \<and> all_same (points n))")
  case True
  then have "subdivide ins n = Inr n" by (auto simp: subdivide_def)
  then show ?thesis using leaf by (simp add: covered_sel[of n])
next
  case False
  define n0 where "n0 = QuadtreeNode (x_min n) (x_max n) (y_min n) (y_max n)
                   (capacity n) (depth n) (max_depth n) (points n) True
                   (Some (QuadtreeNode_init (x_min n) ((x_min n + x_max n) / 2)
                            ((y_min n + y_max n) / 2) (y_max n)
                            (capacity n) (depth n + 1) (max_depth n)))
                   (Some (QuadtreeNode_init ((x_min n + x_max n) / 2) (x_max n)
                            ((y_min n + y_max n) / 2) (y_max n)
                            (capacity n) (depth n + 1) (max_depth n)))
                   (Some (QuadtreeNode_init (x_min n) ((x_min n + x_max n) / 2)
                            (y_min n) ((y_min n + y_max n) / 2)
                            (capacity n) (depth n + 1) (max_depth n)))
                   (Some (QuadtreeNode_init ((x_min n + x_max n) / 2) (x_max n)
                            (y_min n) ((y_min n + y_max n) / 2)
                            (capacity n) (depth n + 1) (max_depth n)))"
  have eq: "subdivide ins n =
          (case redistribute ins n0 (points n) of
             Inl e \<Rightarrow> Inl e | Inr n2 \<Rightarrow> Inr (set_points [] n2))"
    using False by (auto simp: subdivide_def n0_def Let_def)
  have d0: "is_divided n0" by (simp add: n0_def)
  have c0: "covered n0"
    by (simp add: n0_def bounds_def QuadtreeNode_init_def)
  have b0: "bounds n0 = bounds n" by (simp add: n0_def bounds_def)
  have "nesting n0 = 1 + (1 + nat (max_depth n - (depth n + 1)))"
    by (simp add: n0_def QuadtreeNode_init_def)
  also have "\<dots> = 1 + nat (max_depth n - depth n)"
  proof -
    have "depth n < max_depth n" using False by auto
    then show ?thesis by linarith
  qed
  also have "\<dots> = nesting n" using leaf by (simp add: nesting_sel[of n])
  finally have h0: "nesting n0 = nesting n" .
  have "nesting n0 \<le> Suc k" using h0 nn by simp
  from redistribute_cov[OF cov d0 c0 this, of "points n"] obtain n2 where
    r: "redistribute ins n0 (points n) = Inr n2" "is_divided n2" "covered n2"
       "bounds n2 = bounds n0" "nesting n2 \<le> nesting n0"
    by blast
  have "covered (set_points [] n2)"
    using r(3) by (simp add: covered_sel[of n2] covered_sel[of "set_points [] n2"])
  moreover have "nesting (set_points [] n2) = nesting n2"
    by (simp add: nesting_sel[of n2] nesting_sel[of "set_points [] n2"])
  ultimately show ?thesis
    using r b0 h0 by (intro exI[of _ "set_points [] n2"]) (simp add: eq)
qed

lemma insert_body_cov:
  assumes cov: "ins_cov ins k"
  shows "ins_cov (insert_body ins) (Suc k)"
  unfolding ins_cov_def
proof (intro allI impI)
  fix c :: QuadtreeNode and p :: point
  assume cc: "covered c" and nn: "nesting c \<le> Suc k"
  let ?G = "\<exists>c'. insert_body ins c p = Inr (contains c (px p) (py p), c') \<and> covered c' \<and>
              bounds c' = bounds c \<and> nesting c' \<le> nesting c"
  have app: "covered (set_points (points m @ [p]) m) \<and>
             bounds (set_points (points m @ [p]) m) = bounds m \<and>
             nesting (set_points (points m @ [p]) m) = nesting m" if "covered m" for m
    using that
    by (simp add: covered_sel[of m] covered_sel[of "set_points (points m @ [p]) m"]
          nesting_sel[of m] nesting_sel[of "set_points (points m @ [p]) m"])
  show ?G
  proof (cases "contains c (px p) (py p)")
    case False
    then have "insert_body ins c p = Inr (False, c)"
      by (cases p) (simp add: insert_body_def px_def py_def)
    with False cc show ?thesis by simp
  next
    case True
    show ?thesis
    proof (cases "is_divided c")
      case dv: True
      then have "insert_body ins c p = insert_to_child ins c p"
        using True by (cases p) (simp add: insert_body_def px_def py_def)
      with insert_to_child_cov[OF cov dv cc nn, of p] show ?thesis by auto
    next
      case leaf: False
      show ?thesis
      proof (cases "int (length (points c)) < capacity c \<or> depth c \<ge> max_depth c")
        case room: True
        then have "insert_body ins c p = Inr (True, set_points (points c @ [p]) c)"
          using True leaf by (cases p) (auto simp: insert_body_def px_def py_def)
        then show ?thesis using app[OF cc] True by simp
      next
        case full: False
        then have eq: "insert_body ins c p =
            (case subdivide ins c of
               Inl e \<Rightarrow> Inl e
             | Inr n1 \<Rightarrow>
                 if \<not> is_divided n1 then Inr (True, set_points (points n1 @ [p]) n1)
                 else insert_to_child ins n1 p)"
          using True leaf by (cases p) (auto simp: insert_body_def px_def py_def)
        from subdivide_cov[OF cov leaf nn] obtain n1 where
          sd: "subdivide ins c = Inr n1" and
          s: "covered n1" "bounds n1 = bounds c" "nesting n1 \<le> nesting c"
             "\<not> is_divided n1 \<longrightarrow> n1 = c"
          by blast
        show ?thesis
        proof (cases "is_divided n1")
          case False
          with s have "n1 = c" by simp
          then have "insert_body ins c p = Inr (True, set_points (points c @ [p]) c)"
            using eq sd leaf by simp
          then show ?thesis using app[OF cc] True by simp
        next
          case dv1: True
          have "nesting n1 \<le> Suc k" using s(3) nn by simp
          from insert_to_child_cov[OF cov dv1 s(1) this, of p] obtain n' where
            "insert_to_child ins n1 p = Inr (contains n1 (px p) (py p), n')"
            "covered n'" "bounds n' = bounds n1" "nesting n' \<le> nesting n1"
            by blast
          moreover have "contains n1 (px p) (py p) = contains c (px p) (py p)"
            using s(2) by (rule contains_bounds)
          ultimately show ?thesis
            using eq sd dv1 s by (intro exI[of _ n']) simp
        qed
      qed
    qed
  qed
qed

lemma insert_qt_cov: "ins_cov (insert_qt k) k"
proof (induction k)
  case 0
  show ?case using nesting_pos by (simp add: ins_cov_def)
next
  case (Suc k)
  have "insert_qt (Suc k) = insert_body (insert_qt k)" by (intro ext) simp
  then show ?case using insert_body_cov[OF Suc] by simp
qed

lemma insert_qt_mono_cov:
  assumes "covered n" "nesting n \<le> L"
  shows "\<exists>n'. insert_qt L n p = Inr (contains n (px p) (py p), n') \<and> covered n' \<and>
           bounds n' = bounds n \<and> nesting n' \<le> nesting n"
  using insert_qt_cov[of L] assms unfolding ins_cov_def by blast

lemma child_nesting:
  assumes "is_divided n" "nesting n \<le> Suc k"
  shows "nw n = Some a \<Longrightarrow> nesting a \<le> k" "ne n = Some a \<Longrightarrow> nesting a \<le> k"
    "sw n = Some a \<Longrightarrow> nesting a \<le> k" "se n = Some a \<Longrightarrow> nesting a \<le> k"
  using assms by (simp_all add: nesting_sel[of n])

lemma nesting_set_child:
  assumes "is_divided n"
  shows "nw n = Some a \<Longrightarrow> nesting c \<le> nesting a \<Longrightarrow> nesting (set_nw (Some c) n) \<le> nesting n"
    "ne n = Some a \<Longrightarrow> nesting c \<le> nesting a \<Longrightarrow> nesting (set_ne (Some c) n) \<le> nesting n"
    "sw n = Some a \<Longrightarrow> nesting c \<le> nesting a \<Longrightarrow> nesting (set_sw (Some c) n) \<le> nesting n"
    "se n = Some a \<Longrightarrow> nesting c \<le> nesting a \<Longrightarrow> nesting (set_se (Some c) n) \<le> nesting n"
  using assms
  by (auto simp: nesting_sel[of n] nesting_sel[of "set_nw (Some c) n"]
      nesting_sel[of "set_ne (Some c) n"] nesting_sel[of "set_sw (Some c) n"]
      nesting_sel[of "set_se (Some c) n"] le_max_iff_disj)

lemma call_term:
  assumes "ins_term ins k" "nesting a \<le> k"
  shows "ins a p \<noteq> Inl RecursionError" "ins a p = Inr (b, c') \<Longrightarrow> nesting c' \<le> nesting a"
  using assms unfolding ins_term_def by blast+

lemma insert_to_child_term:
  assumes tm: "ins_term ins k" and dv: "is_divided n" and nn: "nesting n \<le> Suc k"
  shows "insert_to_child ins n p \<noteq> Inl RecursionError \<and>
         (\<forall>b n'. insert_to_child ins n p = Inr (b, n') \<longrightarrow>
            is_divided n' \<and> nesting n' \<le> nesting n \<and> points n' = points n \<and>
            depth n' = depth n \<and> max_depth n' = max_depth n)"
proof -
  note cn = child_nesting[OF dv nn]
  note ct = call_term[OF tm]
  note ns = nesting_set_child[OF dv]
  obtain x y i d where p: "p = (x, y, i, d)" by (cases p)
  show ?thesis
  proof (cases "nw n")
    case None
    then show ?thesis by (simp add: insert_to_child_def p)
  next
    case c1: (Some a1)
    show ?thesis
    proof (cases "contains a1 x y")
      case True
      then have "insert_to_child ins n p =
          (case ins a1 p of Inl e \<Rightarrow> Inl e | Inr (b, c') \<Rightarrow> Inr (b, set_nw (Some c') n))"
        by (simp add: insert_to_child_def p c1)
      then show ?thesis
        using ct[OF cn(1)[OF c1], of p] ns(1)[OF c1] dv
        by (auto split: sum.splits)
    next
      case n1: False
      show ?thesis
      proof (cases "ne n")
        case None
        then show ?thesis using n1 by (simp add: insert_to_child_def p c1)
      next
        case c2: (Some a2)
        show ?thesis
        proof (cases "contains a2 x y")
          case True
          then have "insert_to_child ins n p =
              (case ins a2 p of Inl e \<Rightarrow> Inl e | Inr (b, c') \<Rightarrow> Inr (b, set_ne (Some c') n))"
            using n1 by (simp add: insert_to_child_def p c1 c2)
          then show ?thesis
            using ct[OF cn(2)[OF c2], of p] ns(2)[OF c2] dv
            by (auto split: sum.splits)
        next
          case n2: False
          show ?thesis
          proof (cases "sw n")
            case None
            then show ?thesis using n1 n2 by (simp add: insert_to_child_def p c1 c2)
          next
            case c3: (Some a3)
            show ?thesis
            proof (cases "contains a3 x y")
              case True
              then have "insert_to_child ins n p =
                  (case ins a3 p of Inl e \<Rightarrow> Inl e
                   | Inr (b, c') \<Rightarrow> Inr (b, set_sw (Some c') n))"
                using n1 n2 by (simp add: insert_to_child_def p c1 c2 c3)
              then show ?thesis
                using ct[OF cn(3)[OF c3], of p] ns(3)[OF c3] dv
                by (auto split: sum.splits)
            next
              case n3: False
              show ?thesis
              proof (cases "se n")
                case None
                then show ?thesis
                  using n1 n2 n3 by (simp add: insert_to_child_def p c1 c2 c3)
              next
                case c4: (Some a4)
                show ?thesis
                proof (cases "contains a4 x y")
                  case True
                  then have "insert_to_child ins n p =
                      (case ins a4 p of Inl e \<Rightarrow> Inl e
                       | Inr (b, c') \<Rightarrow> Inr (b, set_se (Some c') n))"
                    using n1 n2 n3 by (simp add: insert_to_child_def p c1 c2 c3 c4)
                  then show ?thesis
                    using ct[OF cn(4)[OF c4], of p] ns(4)[OF c4] dv
                    by (auto split: sum.splits)
                next
                  case False
                  then have "insert_to_child ins n p = Inr (False, n)"
                    using n1 n2 n3 by (simp add: insert_to_child_def p c1 c2 c3 c4)
                  then show ?thesis using dv by simp
                qed
              qed
            qed
          qed
        qed
      qed
    qed
  qed
qed

lemma redistribute_term:
  assumes tm: "ins_term ins k"
  shows "is_divided n \<Longrightarrow> nesting n \<le> Suc k \<Longrightarrow>
         redistribute ins n ps \<noteq> Inl RecursionError \<and>
         (\<forall>n'. redistribute ins n ps = Inr n' \<longrightarrow>
            is_divided n' \<and> nesting n' \<le> nesting n \<and> points n' = points n \<and>
            depth n' = depth n \<and> max_depth n' = max_depth n)"
proof (induction ps arbitrary: n)
  case Nil
  then show ?case by simp
next
  case (Cons p ps)
  note a = insert_to_child_term[OF tm Cons.prems, of p]
  show ?case
  proof (cases "insert_to_child ins n p")
    case (Inl e)
    then show ?thesis using a by simp
  next
    case (Inr r)
    obtain b m where r: "r = (b, m)" by (cases r)
    from a Inr r have m: "is_divided m" "nesting m \<le> nesting n" "points m = points n"
      "depth m = depth n" "max_depth m = max_depth n" by simp_all
    have "nesting m \<le> Suc k" using m(2) Cons.prems(2) by simp
    from Cons.IH[OF m(1) this] m Inr r show ?thesis by auto
  qed
qed

lemma subdivide_term:
  assumes tm: "ins_term ins k" and leaf: "\<not> is_divided n" and nn: "nesting n \<le> Suc k"
  shows "subdivide ins n \<noteq> Inl RecursionError \<and>
         (\<forall>n1. subdivide ins n = Inr n1 \<longrightarrow>
            nesting n1 \<le> nesting n \<and> (\<not> is_divided n1 \<longrightarrow> n1 = n))"
proof (cases "depth n \<ge> max_depth n \<or> (length (points n) > 1 \<and> all_same (points n))")
  case True
  then have "subdivide ins n = Inr n" by (auto simp: subdivide_def)
  then show ?thesis by simp
next
  case False
  define n0 where "n0 = QuadtreeNode (x_min n) (x_max n) (y_min n) (y_max n)
                   (capacity n) (depth n) (max_depth n) (points n) True
                   (Some (QuadtreeNode_init (x_min n) ((x_min n + x_max n) / 2)
                            ((y_min n + y_max n) / 2) (y_max n)
                            (capacity n) (depth n + 1) (max_depth n)))
                   (Some (QuadtreeNode_init ((x_min n + x_max n) / 2) (x_max n)
                            ((y_min n + y_max n) / 2) (y_max n)
                            (capacity n) (depth n + 1) (max_depth n)))
                   (Some (QuadtreeNode_init (x_min n) ((x_min n + x_max n) / 2)
                            (y_min n) ((y_min n + y_max n) / 2)
                            (capacity n) (depth n + 1) (max_depth n)))
                   (Some (QuadtreeNode_init ((x_min n + x_max n) / 2) (x_max n)
                            (y_min n) ((y_min n + y_max n) / 2)
                            (capacity n) (depth n + 1) (max_depth n)))"
  have eq: "subdivide ins n =
          (case redistribute ins n0 (points n) of
             Inl e \<Rightarrow> Inl e | Inr n2 \<Rightarrow> Inr (set_points [] n2))"
    using False by (auto simp: subdivide_def n0_def Let_def)
  have d0: "is_divided n0" by (simp add: n0_def)
  have "nesting n0 = 1 + (1 + nat (max_depth n - (depth n + 1)))"
    by (simp add: n0_def QuadtreeNode_init_def)
  also have "\<dots> = 1 + nat (max_depth n - depth n)"
  proof -
    have "depth n < max_depth n" using False by auto
    then show ?thesis by linarith
  qed
  also have "\<dots> = nesting n" using leaf by (simp add: nesting_sel[of n])
  finally have h0: "nesting n0 = nesting n" .
  have "nesting n0 \<le> Suc k" using h0 nn by simp
  note r = redistribute_term[OF tm d0 this, of "points n"]
  have ns: "nesting (set_points [] m) = nesting m" for m
    by (simp add: nesting_sel[of m] nesting_sel[of "set_points [] m"])
  show ?thesis
  proof (cases "redistribute ins n0 (points n)")
    case (Inl e)
    then show ?thesis using r by (simp add: eq)
  next
    case (Inr n2)
    with r have "is_divided n2" "nesting n2 \<le> nesting n0" by simp_all
    then show ?thesis using Inr h0 ns[of n2] by (simp add: eq)
  qed
qed

lemma insert_body_term:
  assumes tm: "ins_term ins k"
  shows "ins_term (insert_body ins) (Suc k)"
  unfolding ins_term_def
proof (intro allI impI)
  fix c :: QuadtreeNode and p :: point
  assume nn: "nesting c \<le> Suc k"
  let ?G = "insert_body ins c p \<noteq> Inl RecursionError \<and>
            (\<forall>b c'. insert_body ins c p = Inr (b, c') \<longrightarrow> nesting c' \<le> nesting c)"
  have app: "nesting (set_points (points m @ [p]) m) = nesting m" for m
    by (simp add: nesting_sel[of m] nesting_sel[of "set_points (points m @ [p]) m"])
  show ?G
  proof (cases "contains c (px p) (py p)")
    case False
    then have "insert_body ins c p = Inr (False, c)"
      by (cases p) (simp add: insert_body_def px_def py_def)
    then show ?thesis by simp
  next
    case True
    show ?thesis
    proof (cases "is_divided c")
      case dv: True
      then have "insert_body ins c p = insert_to_child ins c p"
        using True by (cases p) (simp add: insert_body_def px_def py_def)
      with insert_to_child_term[OF tm dv nn, of p] show ?thesis by simp
    next
      case leaf: False
      show ?thesis
      proof (cases "int (length (points c)) < capacity c \<or> depth c \<ge> max_depth c")
        case room: True
        then have "insert_body ins c p = Inr (True, set_points (points c @ [p]) c)"
          using True leaf by (cases p) (auto simp: insert_body_def px_def py_def)
        then show ?thesis using app[of c] by simp
      next
        case full: False
        then have eq: "insert_body ins c p =
            (case subdivide ins c of
               Inl e \<Rightarrow> Inl e
             | Inr n1 \<Rightarrow>
                 if \<not> is_divided n1 then Inr (True, set_points (points n1 @ [p]) n1)
                 else insert_to_child ins n1 p)"
          using True leaf by (cases p) (auto simp: insert_body_def px_def py_def)
        note s = subdivide_term[OF tm leaf nn]
        show ?thesis
        proof (cases "subdivide ins c")
          case (Inl e)
          then show ?thesis using s by (simp add: eq)
        next
          case (Inr n1)
          with s have n1: "nesting n1 \<le> nesting c" "\<not> is_divided n1 \<longrightarrow> n1 = c" by simp_all
          show ?thesis
          proof (cases "is_divided n1")
            case False
            with n1 have "n1 = c" by simp
            then have "insert_body ins c p = Inr (True, set_points (points c @ [p]) c)"
              using eq Inr leaf by simp
            then show ?thesis using app[of c] by simp
          next
            case dv1: True
            have "nesting n1 \<le> Suc k" using n1(1) nn by simp
            note a = insert_to_child_term[OF tm dv1 this, of p]
            have "insert_body ins c p = insert_to_child ins n1 p"
              using eq Inr dv1 by simp
            then show ?thesis using a n1(1) by auto
          qed
        qed
      qed
    qed
  qed
qed

lemma insert_qt_term: "ins_term (insert_qt k) k"
proof (induction k)
  case 0
  show ?case using nesting_pos by (simp add: ins_term_def)
next
  case (Suc k)
  have "insert_qt (Suc k) = insert_body (insert_qt k)" by (intro ext) simp
  then show ?case using insert_body_term[OF Suc] by simp
qed

lemma ins_term_mono: "ins_term ins k \<Longrightarrow> j \<le> k \<Longrightarrow> ins_term ins j"
  unfolding ins_term_def by (meson order_trans)

lemma query_range_error:
  "query_range n a b c d = Inl e \<Longrightarrow> e = AttributeError"
proof (induction n arbitrary: e)
  case (QuadtreeNode xlo xhi ylo yhi cap dp md ps dv c1 c2 c3 c4)
  then show ?case
    by (auto split: if_splits option.splits sum.splits simp: Let_def)
qed

lemma divided_depths:
  assumes "partition_inv m" "is_divided m"
  shows "depth m < max_depth m"
    and "nw m = Some a \<or> ne m = Some a \<or> sw m = Some a \<or> se m = Some a \<Longrightarrow>
         depth a = depth m + 1 \<and> max_depth a = max_depth m"
  using assms unfolding partition_inv_sel[of m] frame_def by auto


lemma four_inserts_facts:
  "covered tree_four_inserts" "nesting tree_four_inserts \<le> 3"
  "contains tree_four_inserts (3 / 4) (1 / 4)"
  by code_simp+

section \<open>Properties of the specification\<close>

text \<open>
  C6. For every node and every point outside the node's region, \<^verbatim>\<open>insert\<close> returns
  \<^verbatim>\<open>False\<close> and raises nothing, and the node afterwards is the node before, points and
  children alike. The failure is that of the one point: a sequence of inserts goes on with
  the remaining points on the unchanged node, and so does the loop of \<^verbatim>\<open>build\<close>, which
  counts the point in the size all the same.
\<close>

theorem insert_outside_region:
  assumes "\<not> contains n x y"
  shows "insert_qt (Suc k) n (x, y, index, full_data) = Inr (False, n) \<and>
         insert_seq (Suc k) n ((x, y, index, full_data) # ps) =
           (case insert_seq (Suc k) n ps of
              Inl e \<Rightarrow> Inl e | Inr (bs, n') \<Rightarrow> Inr (False # bs, n')) \<and>
         build_loop (Suc k) nd n sz ((x, y, row) # rs) (index # idxs) =
           build_loop (Suc k) nd n (sz + 1) rs idxs"
  using assms by (simp add: insert_body_def)

theorem insert_outside_region_witness:
  "\<not> contains (QuadtreeNode_init 0 1 0 1 4 0 8) 2 (1 / 2) \<and>
   insert_qt (Suc 0) (QuadtreeNode_init 0 1 0 1 4 0 8) (2, 1 / 2, 7, None) =
     Inr (False, QuadtreeNode_init 0 1 0 1 4 0 8) \<and>
   insert_seq (Suc 0) (QuadtreeNode_init 0 1 0 1 4 0 8)
       [(2, 1 / 2, 7, None), (1 / 2, 1 / 2, 8, None)] =
     Inr ([False, True],
          set_points [(1 / 2, 1 / 2, 8, None)] (QuadtreeNode_init 0 1 0 1 4 0 8))"
proof -
  have h: "\<not> contains (QuadtreeNode_init 0 1 0 1 4 0 8) 2 (1 / 2)"
    by (simp add: contains_def QuadtreeNode_init_def)
  have s: "insert_seq (Suc 0) (QuadtreeNode_init 0 1 0 1 4 0 8) [(1 / 2, 1 / 2, 8, None)] =
     Inr ([True], set_points [(1 / 2, 1 / 2, 8, None)] (QuadtreeNode_init 0 1 0 1 4 0 8))"
    by (simp add: insert_body_def contains_def QuadtreeNode_init_def set_points_def)
  show ?thesis
    using h s insert_outside_region[OF h, where k = 0 and index = 7 and full_data = None
        and ps = "[(1 / 2, 1 / 2, 8, None)]"]
    by simp
qed

text \<open>
  C8. For every node and every point, \<^verbatim>\<open>contains\<close> holds exactly when both coordinates
  lie in the node's closed intervals. For every node and every query rectangle, whatever
  the order of their bounds, \<^verbatim>\<open>intersects\<close> holds exactly when in neither dimension the
  rectangle lies wholly beyond the node's bounds: in each dimension the rectangle's minimum
  is at most the node's maximum and the node's minimum at most the rectangle's maximum.
  The comparisons are not strict, so touching on a shared boundary counts. Both are
  functions of their arguments to truth values: they raise nothing and change nothing.
\<close>

theorem contains_intersects_spec:
  "(contains n x y \<longleftrightarrow> x \<in> {x_min n..x_max n} \<and> y \<in> {y_min n..y_max n}) \<and>
   (intersects n qx_min qx_max qy_min qy_max \<longleftrightarrow>
      (qx_min \<le> x_max n \<and> x_min n \<le> qx_max) \<and> (qy_min \<le> y_max n \<and> y_min n \<le> qy_max))"
  by (auto simp: contains_def intersects_def)

theorem contains_intersects_spec_witness:
  "contains (QuadtreeNode_init 0 1 0 1 4 0 8) 1 0 \<and>
   intersects (QuadtreeNode_init 0 1 0 1 4 0 8) 1 2 (- 1) 0 \<and>
   intersects (QuadtreeNode_init 0 1 0 1 4 0 8) (3 / 4) (1 / 4) (1 / 4) (3 / 4) \<and>
   \<not> intersects (QuadtreeNode_init 0 1 0 1 4 0 8) 2 3 0 1"
  using contains_intersects_spec[of "QuadtreeNode_init 0 1 0 1 4 0 8" 1 0 1 2 "- 1" 0]
    contains_intersects_spec[of "QuadtreeNode_init 0 1 0 1 4 0 8" 1 0 "3 / 4" "1 / 4" "1 / 4" "3 / 4"]
    contains_intersects_spec[of "QuadtreeNode_init 0 1 0 1 4 0 8" 1 0 2 3 0 1]
  by (simp add: QuadtreeNode_init_def)

text \<open>
  C5. Every node of a tree reached by any sequence of \<^verbatim>\<open>build\<close> and \<^verbatim>\<open>insert\<close> calls
  is in one of two states. A leaf: \<^verbatim>\<open>is_divided\<close> is false and the four children are
  \<^verbatim>\<open>None\<close>; its tuples are in its own list. An internal node: \<^verbatim>\<open>is_divided\<close> is true,
  its own list is empty, and it has its four children, whose regions are the quadrants of
  its region at the two midpoints; the union of the four is the node's region, and two of
  them meet only on the midlines they share. So no node has both tuples and children.
\<close>

theorem node_leaf_or_internal:
  assumes "reachable n" and "m \<in> set (subnodes n)"
  shows "(\<not> is_divided m \<and> nw m = None \<and> ne m = None \<and> sw m = None \<and> se m = None) \<or>
         (is_divided m \<and> points m = [] \<and>
          (\<exists>a1 a2 a3 a4.
             nw m = Some a1 \<and> ne m = Some a2 \<and> sw m = Some a3 \<and> se m = Some a4 \<and>
             (x_min a1, x_max a1, y_min a1, y_max a1) =
               (x_min m, (x_min m + x_max m) / 2, (y_min m + y_max m) / 2, y_max m) \<and>
             (x_min a2, x_max a2, y_min a2, y_max a2) =
               ((x_min m + x_max m) / 2, x_max m, (y_min m + y_max m) / 2, y_max m) \<and>
             (x_min a3, x_max a3, y_min a3, y_max a3) =
               (x_min m, (x_min m + x_max m) / 2, y_min m, (y_min m + y_max m) / 2) \<and>
             (x_min a4, x_max a4, y_min a4, y_max a4) =
               ((x_min m + x_max m) / 2, x_max m, y_min m, (y_min m + y_max m) / 2) \<and>
             region a1 \<union> region a2 \<union> region a3 \<union> region a4 = region m \<and>
             region a1 \<inter> region a2 \<subseteq> {(x, y). x = (x_min m + x_max m) / 2} \<and>
             region a3 \<inter> region a4 \<subseteq> {(x, y). x = (x_min m + x_max m) / 2} \<and>
             region a1 \<inter> region a3 \<subseteq> {(x, y). y = (y_min m + y_max m) / 2} \<and>
             region a2 \<inter> region a4 \<subseteq> {(x, y). y = (y_min m + y_max m) / 2} \<and>
             region a1 \<inter> region a4 \<subseteq> {((x_min m + x_max m) / 2, (y_min m + y_max m) / 2)} \<and>
             region a2 \<inter> region a3 \<subseteq> {((x_min m + x_max m) / 2, (y_min m + y_max m) / 2)}))"
proof -
  have pm: "partition_inv m"
    using subnodes_partition_inv[OF _ assms(2)] reachable_inv[OF assms(1)] by blast
  show ?thesis
  proof (cases "is_divided m")
    case False
    then show ?thesis using pm by (simp add: partition_inv_sel[of m])
  next
    case True
    with pm obtain a1 a2 a3 a4 where
      c: "nw m = Some a1" "ne m = Some a2" "sw m = Some a3" "se m = Some a4" and
      pe: "points m = []" and
      b: "(x_min a1, x_max a1, y_min a1, y_max a1) =
             (x_min m, (x_min m + x_max m) / 2, (y_min m + y_max m) / 2, y_max m)"
         "(x_min a2, x_max a2, y_min a2, y_max a2) =
             ((x_min m + x_max m) / 2, x_max m, (y_min m + y_max m) / 2, y_max m)"
         "(x_min a3, x_max a3, y_min a3, y_max a3) =
             (x_min m, (x_min m + x_max m) / 2, y_min m, (y_min m + y_max m) / 2)"
         "(x_min a4, x_max a4, y_min a4, y_max a4) =
             ((x_min m + x_max m) / 2, x_max m, y_min m, (y_min m + y_max m) / 2)"
      unfolding partition_inv_sel[of m] frame_def by auto
    note q = quadrant_regions[OF b]
    show ?thesis
      using True pe c b q by blast
  qed
qed

theorem node_leaf_or_internal_witness:
  "reachable tree_two_coincident \<and> tree_two_coincident \<in> set (subnodes tree_two_coincident) \<and>
   is_divided tree_two_coincident \<and> points tree_two_coincident = [] \<and>
   (\<exists>a1 a2 a3 a4.
      nw tree_two_coincident = Some a1 \<and> ne tree_two_coincident = Some a2 \<and>
      sw tree_two_coincident = Some a3 \<and> se tree_two_coincident = Some a4 \<and>
      region a1 \<union> region a2 \<union> region a3 \<union> region a4 = region tree_two_coincident)"
proof -
  have r: "reachable tree_two_coincident"
    using reachable_insert_seq[OF reachable.fresh two_coincident_run] .
  have m: "tree_two_coincident \<in> set (subnodes tree_two_coincident)"
    by (rule subnodes_self)
  have d: "is_divided tree_two_coincident"
    by (simp add: tree_two_coincident_def)
  from node_leaf_or_internal[OF r m] d r m show ?thesis by blast
qed




text \<open>
  C3, amended. For every index built by \<^verbatim>\<open>build\<close> with a configured \<^verbatim>\<open>max_depth\<close>, and
  after any sequence of further inserts into its root, the depth \<^verbatim>\<open>get_depth\<close> reports,
  which counts an unsplit root as 1, is at most \<^verbatim>\<open>max_depth + 1\<close> when \<^verbatim>\<open>max_depth\<close> is
  not negative, and 1 when it is. The \<^verbatim>\<open>depth\<close> field of a node counts from 0 at the root
  and a node splits while its field is below \<^verbatim>\<open>max_depth\<close>, so the deepest leaves have
  the field \<^verbatim>\<open>max_depth\<close> and are on level \<^verbatim>\<open>max_depth + 1\<close> of the count of \<^verbatim>\<open>get_depth\<close>.
\<close>

theorem get_depth_bound:
  assumes "build L q a ix = Inr q1" and "qt_root q1 = Some r"
    and "insert_seq L' r ps = Inr (bs, r')"
  shows "get_depth q1 \<le> max 0 (qt_max_depth q1) + 1 \<and>
         get_depth (q1\<lparr>qt_root := Some r'\<rparr>) \<le> max 0 (qt_max_depth q1) + 1"
proof -
  from build_root_frame[OF assms(1)] assms(2)
  have r: "reachable r" "depth r = 0" "max_depth r = qt_max_depth q1" by auto
  have pr: "partition_inv r" using reachable_inv[OF r(1)] by simp
  note a = insert_seq_ok[OF pr assms(3)]
  have r': "partition_inv r'" "depth r' = 0" "max_depth r' = qt_max_depth q1"
    using a r by (simp_all add: frame_def)
  from get_depth_recursive_bound[OF pr] get_depth_recursive_bound[OF r'(1)]
  show ?thesis
    using r r' assms(2) by (simp add: get_depth_def)
qed

theorem get_depth_bound_witness:
  "\<exists>q1 r bs r'.
     build 2 (Quadtree_init 0 1 1 1) (ndarray 2 [[0, 0], [1, 1], [5, 5], [9, 9], [10, 10]])
       None = Inr q1 \<and>
     qt_root q1 = Some r \<and> insert_seq 2 r [(3, 3, 5, None)] = Inr (bs, r') \<and>
     qt_max_depth q1 = 1 \<and> get_depth q1 \<le> 2 \<and> get_depth (q1\<lparr>qt_root := Some r'\<rparr>) \<le> 2"
proof -
  have "case build 2 (Quadtree_init 0 1 1 1)
               (ndarray 2 [[0, 0], [1, 1], [5, 5], [9, 9], [10, 10]]) None of
          Inl e \<Rightarrow> False
        | Inr q1 \<Rightarrow> qt_max_depth q1 = 1 \<and>
            (case qt_root q1 of None \<Rightarrow> False
             | Some r \<Rightarrow> (case insert_seq 2 r [(3, 3, 5, None)] of
                 Inl e \<Rightarrow> False | Inr (bs, r') \<Rightarrow> True))"
    by code_simp
  then obtain q1 r bs r' where
    b: "build 2 (Quadtree_init 0 1 1 1)
          (ndarray 2 [[0, 0], [1, 1], [5, 5], [9, 9], [10, 10]]) None = Inr q1" and
    m: "qt_max_depth q1 = 1" and rt: "qt_root q1 = Some r" and
    s: "insert_seq 2 r [(3, 3, 5, None)] = Inr (bs, r')"
    by (auto split: sum.splits option.splits)
  from get_depth_bound[OF b rt s] m b rt s show ?thesis by auto
qed

theorem get_depth_bound_counterexample:
  "\<exists>q1.
     build 2 (Quadtree_init 0 1 1 1) (ndarray 2 [[0, 0], [1, 1], [5, 5], [9, 9], [10, 10]])
       None = Inr q1 \<and>
     qt_max_depth q1 = 1 \<and> get_depth q1 = 2"
proof -
  have "case build 2 (Quadtree_init 0 1 1 1)
               (ndarray 2 [[0, 0], [1, 1], [5, 5], [9, 9], [10, 10]]) None of
          Inl e \<Rightarrow> False
        | Inr q1 \<Rightarrow> qt_max_depth q1 = 1 \<and> get_depth q1 = 2"
    by code_simp
  then show ?thesis by (rule returnsE)
qed










text \<open>
  C9. Of the partition invariant, take the part that every divided node of the tree has
  its four children and that their regions are the quadrants of its region at the two
  midpoints. On every such node, \<^verbatim>\<open>insert\<close> of a point that the node's region contains
  returns \<^verbatim>\<open>True\<close>, under every recursion limit that allows the nested calls the node
  needs; the node afterwards is again such a node and needs no more nested calls. The
  branch of \<^verbatim>\<open>_insert_to_child\<close> that returns \<^verbatim>\<open>False\<close> is then not reached: at a divided
  node, one of the four children contains the point. Every node that satisfies the
  partition invariant is such a node and needs at most \<^verbatim>\<open>max_depth - depth + 1\<close> nested
  calls, and every node reached by \<^verbatim>\<open>build\<close> and \<^verbatim>\<open>insert\<close> satisfies the invariant.
\<close>

theorem insert_contained_succeeds:
  "(covered n \<and> contains n x y \<and> nesting n \<le> L \<longrightarrow>
      (\<exists>n'. insert_qt L n (x, y, index, full_data) = Inr (True, n') \<and>
            covered n' \<and> nesting n' \<le> L)) \<and>
   (covered n \<and> is_divided n \<and> contains n x y \<longrightarrow>
      (\<exists>a. (nw n = Some a \<or> ne n = Some a \<or> sw n = Some a \<or> se n = Some a) \<and>
           contains a x y)) \<and>
   (partition_inv n \<longrightarrow> covered n \<and> nesting n \<le> 1 + nat (max_depth n - depth n)) \<and>
   (reachable n \<longrightarrow> partition_inv n)"
proof (intro conjI impI)
  assume h: "covered n \<and> contains n x y \<and> nesting n \<le> L"
  from insert_qt_mono_cov[of n L "(x, y, index, full_data)"] h
  obtain n' where "insert_qt L n (x, y, index, full_data) = Inr (True, n')" "covered n'"
    "nesting n' \<le> nesting n"
    by (auto simp: px_def py_def)
  with h show "\<exists>n'. insert_qt L n (x, y, index, full_data) = Inr (True, n') \<and>
            covered n' \<and> nesting n' \<le> L"
    by (intro exI[of _ n']) simp
next
  assume h: "covered n \<and> is_divided n \<and> contains n x y"
  then obtain a1 a2 a3 a4 where
    ch: "nw n = Some a1" "ne n = Some a2" "sw n = Some a3" "se n = Some a4" and
    b: "bounds a1 = (x_min n, (x_min n + x_max n) / 2, (y_min n + y_max n) / 2, y_max n)"
       "bounds a2 = ((x_min n + x_max n) / 2, x_max n, (y_min n + y_max n) / 2, y_max n)"
       "bounds a3 = (x_min n, (x_min n + x_max n) / 2, y_min n, (y_min n + y_max n) / 2)"
       "bounds a4 = ((x_min n + x_max n) / 2, x_max n, y_min n, (y_min n + y_max n) / 2)"
    unfolding covered_sel[of n] by blast
  from quadrant_cover_bounds[OF b, of x y] h
  have "contains a1 x y \<or> contains a2 x y \<or> contains a3 x y \<or> contains a4 x y" by simp
  with ch show "\<exists>a. (nw n = Some a \<or> ne n = Some a \<or> sw n = Some a \<or> se n = Some a) \<and>
           contains a x y"
    by blast
next
  assume "partition_inv n"
  then show "covered n" by (rule partition_inv_covered)
next
  assume "partition_inv n"
  then show "nesting n \<le> 1 + nat (max_depth n - depth n)" by (rule partition_inv_nesting)
next
  assume "reachable n"
  then show "partition_inv n" using reachable_inv by blast
qed

theorem insert_contained_succeeds_witness:
  "covered tree_four_inserts \<and> is_divided tree_four_inserts \<and>
   contains tree_four_inserts (3 / 4) (1 / 4) \<and> nesting tree_four_inserts \<le> 3 \<and>
   (\<exists>n'. insert_qt 3 tree_four_inserts (3 / 4, 1 / 4, 20, None) = Inr (True, n')) \<and>
   (\<exists>a. (nw tree_four_inserts = Some a \<or> ne tree_four_inserts = Some a \<or>
         sw tree_four_inserts = Some a \<or> se tree_four_inserts = Some a) \<and>
        contains a (3 / 4) (1 / 4))"
proof -
  have d: "is_divided tree_four_inserts" by (simp add: tree_four_inserts_def)
  from insert_contained_succeeds[of tree_four_inserts "3 / 4" "1 / 4" 3 20 None]
    four_inserts_facts d
  show ?thesis by blast
qed

text \<open>
  C10. On every node and for every point, \<^verbatim>\<open>insert\<close> finishes within the nested calls
  the node needs: under a recursion limit of that many nested calls it does not exceed
  the limit. \<^verbatim>\<open>query_range\<close> recurses on the children of the node it is called on, so it
  finishes on every tree, and the one error it can raise is that of a divided node
  lacking a child. On a node reached by \<^verbatim>\<open>build\<close> and \<^verbatim>\<open>insert\<close>: every divided node of
  the tree has its \<^verbatim>\<open>depth\<close> below \<^verbatim>\<open>max_depth\<close>, and its children are one deeper with
  the same \<^verbatim>\<open>max_depth\<close>; the calls nested in the call at the node are at most
  \<^verbatim>\<open>max_depth - depth\<close>, hence at most \<^verbatim>\<open>max_depth\<close> when \<^verbatim>\<open>depth\<close> is not negative;
  with a recursion limit above \<^verbatim>\<open>max_depth - depth\<close> every \<^verbatim>\<open>insert\<close> and every
  sequence of inserts returns, and \<^verbatim>\<open>query_range\<close> returns a list.
\<close>

theorem insert_query_terminate:
  "(nesting n \<le> L \<longrightarrow> insert_qt L n p \<noteq> Inl RecursionError) \<and>
   (\<forall>e. query_range n qx_min qx_max qy_min qy_max = Inl e \<longrightarrow> e = AttributeError) \<and>
   (reachable n \<longrightarrow>
      nesting n \<le> 1 + nat (max_depth n - depth n) \<and>
      (0 \<le> depth n \<longrightarrow> nesting n \<le> 1 + nat (max_depth n)) \<and>
      (\<forall>m \<in> set (subnodes n). is_divided m \<longrightarrow>
         depth m < max_depth m \<and>
         (\<forall>a. nw m = Some a \<or> ne m = Some a \<or> sw m = Some a \<or> se m = Some a \<longrightarrow>
              depth a = depth m + 1 \<and> max_depth a = max_depth m)) \<and>
      (nat (max_depth n - depth n) < L \<longrightarrow>
         (\<exists>b n'. insert_qt L n p = Inr (b, n')) \<and>
         (\<exists>bs n'. insert_seq L n ps = Inr (bs, n'))) \<and>
      (\<exists>r. query_range n qx_min qx_max qy_min qy_max = Inr r))"
proof (intro conjI impI)
  assume "nesting n \<le> L"
  then show "insert_qt L n p \<noteq> Inl RecursionError"
    using insert_qt_term[of L] unfolding ins_term_def by blast
next
  show "\<forall>e. query_range n qx_min qx_max qy_min qy_max = Inl e \<longrightarrow> e = AttributeError"
    using query_range_error[of n qx_min qx_max qy_min qy_max] by blast
next
  assume r: "reachable n"
  then have pi: "partition_inv n" using reachable_inv by blast
  show nn: "nesting n \<le> 1 + nat (max_depth n - depth n)"
    using pi by (rule partition_inv_nesting)
  show "nesting n \<le> 1 + nat (max_depth n)" if "0 \<le> depth n"
    using nn that by linarith
  show "\<forall>m \<in> set (subnodes n). is_divided m \<longrightarrow>
         depth m < max_depth m \<and>
         (\<forall>a. nw m = Some a \<or> ne m = Some a \<or> sw m = Some a \<or> se m = Some a \<longrightarrow>
              depth a = depth m + 1 \<and> max_depth a = max_depth m)"
    using divided_depths subnodes_partition_inv[OF pi] by blast
  show "\<exists>r. query_range n qx_min qx_max qy_min qy_max = Inr r"
    using query_range_ok[OF pi] by blast
  show "\<exists>b n'. insert_qt L n p = Inr (b, n')" if "nat (max_depth n - depth n) < L"
  proof -
    have "max_depth n - depth n < int L" "0 < L" using that by linarith+
    from insert_qt_total[OF pi this] show ?thesis by blast
  qed
  show "\<exists>bs n'. insert_seq L n ps = Inr (bs, n')" if "nat (max_depth n - depth n) < L"
    using insert_seq_total[OF pi that] .
qed

theorem insert_query_terminate_witness:
  "nesting tree_four_inserts \<le> 3 \<and>
   insert_qt 3 tree_four_inserts (3 / 4, 1 / 4, 20, None) \<noteq> Inl RecursionError \<and>
   reachable tree_four_inserts \<and> depth tree_four_inserts = 0 \<and>
   max_depth tree_four_inserts = 2 \<and>
   (\<exists>b n'. insert_qt 3 tree_four_inserts (3 / 4, 1 / 4, 20, None) = Inr (b, n')) \<and>
   (\<exists>r. query_range tree_four_inserts 0 1 0 1 = Inr r)"
proof -
  have r: "reachable tree_four_inserts"
    using reachable_insert_seq[OF reachable.fresh four_inserts_run] .
  have d: "depth tree_four_inserts = 0" "max_depth tree_four_inserts = 2"
    by (simp_all add: tree_four_inserts_def)
  have l: "nat (max_depth tree_four_inserts - depth tree_four_inserts) < 3"
    using d by simp
  from insert_query_terminate[of tree_four_inserts 3 "(3 / 4, 1 / 4, 20, None)" 0 1 0 1 "[]"]
    four_inserts_facts(2) r d l
  show ?thesis by blast
qed

end
